theory Spec2Isabelle
  imports Main "HOL-Library.AList"
begin

section \<open>Python values used by \<open>backend/kusto.py\<close>\<close>

text \<open>
  The exceptions the handler can raise. None of them is caught inside \<open>kusto.py\<close>,
  so each one ends the running method and becomes its outcome. A KeyError carries the
  missing key; the message of a ValueError is the date parser's own and is not recorded.
  \<open>NotModelled\<close> is not an exception: it marks a run that was given a date string on which
  the Python versions differ, or which carries a UTC offset, where this development
  stops (see \<open>rejects\<close> below).
\<close>

datatype error =
  KeyError string
  | IndexError
  | ValueError
  | TypeError
  | AttributeError
  | OverflowError
  | NotModelled

subsection \<open>Naive \<open>datetime.datetime\<close>\<close>

record datetime =
  year :: int
  month :: int
  day :: int
  hour :: int
  minute :: int
  second :: int
  microsecond :: int

definition is_leap :: "int \<Rightarrow> bool" where
  "is_leap y = (y mod 4 = 0 \<and> (y mod 100 \<noteq> 0 \<or> y mod 400 = 0))"

text \<open>The tables \<open>_DAYS_IN_MONTH\<close> and \<open>_DAYS_BEFORE_MONTH\<close> of the datetime module.\<close>

definition DAYS_IN_MONTH :: "int \<Rightarrow> int" where
  "DAYS_IN_MONTH m =
     (if m = 1 then 31 else if m = 2 then 28 else if m = 3 then 31 else if m = 4 then 30
      else if m = 5 then 31 else if m = 6 then 30 else if m = 7 then 31 else if m = 8 then 31
      else if m = 9 then 30 else if m = 10 then 31 else if m = 11 then 30 else if m = 12 then 31
      else -1)"

definition DAYS_BEFORE_MONTH :: "int \<Rightarrow> int" where
  "DAYS_BEFORE_MONTH m =
     (if m = 1 then 0 else if m = 2 then 31 else if m = 3 then 59 else if m = 4 then 90
      else if m = 5 then 120 else if m = 6 then 151 else if m = 7 then 181 else if m = 8 then 212
      else if m = 9 then 243 else if m = 10 then 273 else if m = 11 then 304 else if m = 12 then 334
      else -1)"

definition days_in_month :: "int \<Rightarrow> int \<Rightarrow> int" where
  "days_in_month y m = (if m = 2 \<and> is_leap y then 29 else DAYS_IN_MONTH m)"

definition days_before_year :: "int \<Rightarrow> int" where
  "days_before_year y = (let y' = y - 1 in y' * 365 + y' div 4 - y' div 100 + y' div 400)"

definition days_before_month :: "int \<Rightarrow> int \<Rightarrow> int" where
  "days_before_month y m = DAYS_BEFORE_MONTH m + (if m > 2 \<and> is_leap y then 1 else 0)"

definition ymd2ord :: "int \<Rightarrow> int \<Rightarrow> int \<Rightarrow> int" where
  "ymd2ord y m d = days_before_year y + days_before_month y m + d"

text \<open>
  The last step of \<open>_ord2ymd\<close>: month and day of the zero-based day \<open>nd\<close> of a year,
  from the estimate \<open>(nd + 50) >> 5\<close>, which is the month or one too many.
\<close>

definition month_day :: "bool \<Rightarrow> int \<Rightarrow> int \<times> int" where
  "month_day leapyear nd =
     (let m = (nd + 50) div 32;
          preceding = DAYS_BEFORE_MONTH m + (if m > 2 \<and> leapyear then 1 else 0)
      in if preceding > nd
         then let m' = m - 1;
                  preceding' = preceding - (DAYS_IN_MONTH m' + (if m' = 2 \<and> leapyear then 1 else 0))
              in (m', nd - preceding' + 1)
         else (m, nd - preceding + 1))"

text \<open>\<open>_ord2ymd\<close>: the date of a proleptic Gregorian ordinal, by 400-, 100-, 4- and 1-year cycles.\<close>

definition ord2ymd :: "int \<Rightarrow> int \<times> int \<times> int" where
  "ord2ymd n0 =
     (let n = n0 - 1;
          n400 = n div 146097; na = n mod 146097;
          n100 = na div 36524; nb = na mod 36524;
          n4 = nb div 1461; nc = nb mod 1461;
          n1 = nc div 365; nd = nc mod 365;
          y = n400 * 400 + 1 + n100 * 100 + n4 * 4 + n1
      in if n1 = 4 \<or> n100 = 4 then (y - 1, 12, 31)
         else
           let leapyear = (n1 = 3 \<and> (n4 \<noteq> 24 \<or> n100 = 3))
           in case month_day leapyear nd of (m, d) \<Rightarrow> (y, m, d))"

definition MAXORDINAL :: int where
  "MAXORDINAL = 3652059"

text \<open>
  The values a \<open>datetime\<close> object can hold: the constructor rejects everything else, so
  every timestamp of a dataset and every reading of the clock satisfies this.
\<close>

definition valid_datetime :: "datetime \<Rightarrow> bool" where
  "valid_datetime t =
     (1 \<le> year t \<and> year t \<le> 9999 \<and> 1 \<le> month t \<and> month t \<le> 12 \<and>
      1 \<le> day t \<and> day t \<le> days_in_month (year t) (month t) \<and>
      0 \<le> hour t \<and> hour t \<le> 23 \<and> 0 \<le> minute t \<and> minute t \<le> 59 \<and>
      0 \<le> second t \<and> second t \<le> 59 \<and> 0 \<le> microsecond t \<and> microsecond t \<le> 999999)"

definition toordinal :: "datetime \<Rightarrow> int" where
  "toordinal t = ymd2ord (year t) (month t) (day t)"

definition weekday :: "datetime \<Rightarrow> int" where
  "weekday t = (toordinal t + 6) mod 7"

text \<open>
  \<open>ts - timedelta(days=k)\<close>: the ordinal moves back by \<open>k\<close>, the time of day stays, and a
  result outside \<open>1 .. MAXORDINAL\<close> raises OverflowError.
\<close>

definition sub_days :: "datetime \<Rightarrow> int \<Rightarrow> error + datetime" where
  "sub_days t k =
     (let n = toordinal t - k
      in if 0 < n \<and> n \<le> MAXORDINAL
         then (case ord2ymd n of (y, m, d) \<Rightarrow> Inr (t\<lparr>year := y, month := m, day := d\<rparr>))
         else Inl OverflowError)"

text \<open>Comparison of naive datetimes is the comparison of their field tuples.\<close>

fun lex_le :: "int list \<Rightarrow> int list \<Rightarrow> bool" where
  "lex_le [] ys = True"
| "lex_le (x # xs) [] = False"
| "lex_le (x # xs) (y # ys) = (x < y \<or> (x = y \<and> lex_le xs ys))"

definition dt_fields :: "datetime \<Rightarrow> int list" where
  "dt_fields t = [year t, month t, day t, hour t, minute t, second t, microsecond t]"

definition dt_le :: "datetime \<Rightarrow> datetime \<Rightarrow> bool" where
  "dt_le a b = lex_le (dt_fields a) (dt_fields b)"

text \<open>
  \<open>(a - b)\<close> of two datetimes is a timedelta; \<open>micros_between b a\<close> is its exact length in
  microseconds. \<open>total_seconds()\<close> divides that integer by \<open>10**6\<close>.
\<close>

definition day_micros :: "datetime \<Rightarrow> int" where
  "day_micros t = ((hour t * 60 + minute t) * 60 + second t) * 1000000 + microsecond t"

definition micros_between :: "datetime \<Rightarrow> datetime \<Rightarrow> int" where
  "micros_between b a =
     (toordinal a - toordinal b) * 86400000000 + (day_micros a - day_micros b)"

text \<open>
  \<open>t + timedelta(microseconds=d)\<close>, the instant \<open>d\<close> microseconds after \<open>t\<close>: the sum is
  normalised to days, seconds and microseconds, the date is rebuilt from the day number by
  \<open>_ord2ymd\<close>, and a date outside \<open>1 .. MAXORDINAL\<close> raises OverflowError. The handler
  does not call it; it is what elapsed time is measured against below.
\<close>

definition add_micros :: "datetime \<Rightarrow> int \<Rightarrow> error + datetime" where
  "add_micros t d =
     (let total = toordinal t * 86400000000 + day_micros t + d;
          days = total div 86400000000; rest = total mod 86400000000;
          secs = rest div 1000000; us = rest mod 1000000;
          hh = secs div 3600; rem = secs mod 3600;
          mm = rem div 60; ss = rem mod 60
      in if 0 < days \<and> days \<le> MAXORDINAL
         then (case ord2ymd days of
                 (y, m, dd) \<Rightarrow> Inr \<lparr>year = y, month = m, day = dd, hour = hh, minute = mm,
                                    second = ss, microsecond = us\<rparr>)
         else Inl OverflowError)"

subsection \<open>Formatting and parsing\<close>

definition digit_char :: "int \<Rightarrow> char" where
  "digit_char d = ''0123456789'' ! nat d"

fun str_nat :: "nat \<Rightarrow> string" where
  "str_nat n = (if n < 10 then [digit_char (int n)]
                else str_nat (n div 10) @ [digit_char (int (n mod 10))])"

declare str_nat.simps [simp del]

text \<open>\<open>str(n)\<close> of an integer, as an f-string renders it.\<close>

definition str_int :: "int \<Rightarrow> string" where
  "str_int n = (if n < 0 then CHR ''-'' # str_nat (nat (- n)) else str_nat (nat n))"

definition zfill :: "nat \<Rightarrow> string \<Rightarrow> string" where
  "zfill w s = replicate (w - length s) CHR ''0'' @ s"

text \<open>
  The strftime directives the handler uses. \<open>%m\<close>, \<open>%d\<close>, \<open>%H\<close>, \<open>%M\<close>, \<open>%S\<close> are
  zero-padded to two digits. \<open>%Y\<close> is passed to the C library, and glibc prints the year
  without padding, so a year below 1000 comes out with fewer than four digits; C libraries
  that pad to four digits print the same from year 1000 on.
\<close>

definition fmt_Y :: "datetime \<Rightarrow> string" where
  "fmt_Y t = str_int (year t)"

definition fmt_2 :: "int \<Rightarrow> string" where
  "fmt_2 n = zfill 2 (str_int n)"

definition strftime_Ymd :: "datetime \<Rightarrow> string" where
  "strftime_Ymd t = fmt_Y t @ ''-'' @ fmt_2 (month t) @ ''-'' @ fmt_2 (day t)"

definition strftime_Ymd_H00 :: "datetime \<Rightarrow> string" where
  "strftime_Ymd_H00 t = strftime_Ymd t @ '' '' @ fmt_2 (hour t) @ '':00''"

definition strftime_Ym :: "datetime \<Rightarrow> string" where
  "strftime_Ym t = fmt_Y t @ ''-'' @ fmt_2 (month t)"

definition strftime_Ymd_HMS :: "datetime \<Rightarrow> string" where
  "strftime_Ymd_HMS t =
     strftime_Ymd t @ '' '' @ fmt_2 (hour t) @ '':'' @ fmt_2 (minute t) @ '':'' @ fmt_2 (second t)"

definition strftime_HMS :: "datetime \<Rightarrow> string" where
  "strftime_HMS t = fmt_2 (hour t) @ '':'' @ fmt_2 (minute t) @ '':'' @ fmt_2 (second t)"

text \<open>
  The calendar date of \<open>t\<close> written \<open>YYYY-MM-DD\<close>, the year zero-padded to four digits, as
  \<open>date.isoformat()\<close> writes it. This is the form in which a request names its
  \<open>start_date\<close> and \<open>end_date\<close>.
\<close>

definition isoformat_date :: "datetime \<Rightarrow> string" where
  "isoformat_date t = zfill 4 (str_int (year t)) @ ''-'' @ fmt_2 (month t) @ ''-'' @ fmt_2 (day t)"

definition digit_val :: "char \<Rightarrow> int option" where
  "digit_val c = map_of (zip ''0123456789'' [0, 1, 2, 3, 4, 5, 6, 7, 8, 9]) c"

fun num_of :: "int \<Rightarrow> string \<Rightarrow> int option" where
  "num_of acc [] = Some acc"
| "num_of acc (c # cs) =
     (case digit_val c of None \<Rightarrow> None | Some d \<Rightarrow> num_of (10 * acc + d) cs)"

text \<open>The date part \<open>YYYY-MM-DD\<close>: exactly ten characters, digits and two hyphens.\<close>

definition parse_isoformat_date :: "string \<Rightarrow> (int \<times> int \<times> int) option" where
  "parse_isoformat_date s =
     (if length s \<noteq> 10 \<or> s ! 4 \<noteq> CHR ''-'' \<or> s ! 7 \<noteq> CHR ''-'' then None
      else case (num_of 0 (take 4 s), num_of 0 (take 2 (drop 5 s)), num_of 0 (drop 8 s)) of
             (Some y, Some m, Some d) \<Rightarrow> Some (y, m, d)
           | _ \<Rightarrow> None)"

text \<open>The time part \<open>HH[:MM[:SS[.fff[fff]]]]\<close>, without a UTC offset.\<close>

definition parse_isoformat_time :: "string \<Rightarrow> (int \<times> int \<times> int \<times> int) option" where
  "parse_isoformat_time s =
     (let n = length s;
          colon1 = (n < 3 \<or> s ! 2 = CHR '':'');
          colon2 = (n < 6 \<or> s ! 5 = CHR '':'');
          dot = (n < 9 \<or> s ! 8 = CHR ''.'')
      in if n \<notin> {2, 5, 8, 12, 15} \<or> \<not> colon1 \<or> \<not> colon2 \<or> \<not> dot then None
         else case (num_of 0 (take 2 s), num_of 0 (take 2 (drop 3 s)),
                    num_of 0 (take 2 (drop 6 s)), num_of 0 (drop 9 s)) of
                (Some hh, Some mm, Some ss, Some f) \<Rightarrow>
                  Some (hh, mm, ss, if n = 12 then f * 1000 else f)
              | _ \<Rightarrow> None)"

text \<open>
  \<open>datetime.fromisoformat\<close> on the strings that every Python 3 version reads as a naive
  datetime, \<open>YYYY-MM-DD[*HH[:MM[:SS[.fff[fff]]]]]\<close>, where \<open>*\<close> is any one character; the
  result is \<open>None\<close> on every other string. What the library does with those depends:
  the strings of \<open>rejects\<close> below raise ValueError in every version; the rest (a UTC
  offset, giving an aware datetime, or one of the forms that Python 3.11 added, such as
  \<open>20240101\<close> and \<open>2024-W01-1\<close>) are not modelled.
\<close>

definition fromisoformat :: "string \<Rightarrow> datetime option" where
  "fromisoformat s =
     (case parse_isoformat_date (take 10 s) of
        None \<Rightarrow> None
      | Some (y, m, d) \<Rightarrow>
          (case (if length s = 10 then Some (0, 0, 0, 0) else parse_isoformat_time (drop 11 s)) of
             None \<Rightarrow> None
           | Some (hh, mm, ss, us) \<Rightarrow>
               (let t = \<lparr>year = y, month = m, day = d, hour = hh, minute = mm, second = ss,
                         microsecond = us\<rparr>
                in if valid_datetime t then Some t else None)))"

text \<open>
  Strings on which \<open>datetime.fromisoformat\<close> raises ValueError in every version of CPython:
  those that do not begin with four decimal digits (the year, in every format it reads),
  and those of the shape \<open>DDDD-DD-DD\<close> whose numbers are not a calendar date (year 0,
  month 13, 30 February).
\<close>

definition rejects :: "string \<Rightarrow> bool" where
  "rejects s =
     (length s < 4 \<or> num_of 0 (take 4 s) = None
      \<or> (length s = 10
          \<and> (case parse_isoformat_date s of
                None \<Rightarrow> False
              | Some (y, m, d) \<Rightarrow>
                  \<not> valid_datetime \<lparr>year = y, month = m, day = d, hour = 0, minute = 0,
                                      second = 0, microsecond = 0\<rparr>)))"

section \<open>Datasets and the handler\<close>

text \<open>
  A cell of a column: the timestamp column holds datetimes, the other columns strings or
  numbers. A dataset is a dict from column name to list, kept in insertion order.
\<close>

datatype cell = Ts datetime | Str string | Num int

type_synonym dataset = "(string \<times> cell list) list"

text \<open>Truthiness of \<open>self.bar_data\<close>: neither \<open>None\<close> nor the empty dict.\<close>

definition truthy_data :: "dataset option \<Rightarrow> bool" where
  "truthy_data d = (case d of None \<Rightarrow> False | Some ds \<Rightarrow> ds \<noteq> [])"

text \<open>Truthiness of an optional string argument: neither \<open>None\<close> nor \<open>""\<close>.\<close>

definition truthy_str :: "string option \<Rightarrow> bool" where
  "truthy_str s = (case s of None \<Rightarrow> False | Some x \<Rightarrow> x \<noteq> [])"

record handler =
  data :: "dataset option"
  bar_data :: "dataset option"
  last_load_time :: "datetime option"
  bar_last_load_time :: "datetime option"
  cache_duration :: int

text \<open>
  What a method runs in: the handler object, the number of readings taken from the system
  clock so far, and the number of times the data source was loaded so far (a counter kept
  only to state which methods load).
\<close>

record world =
  self :: handler
  ticks :: nat
  loads :: nat

text \<open>
  What the module fixes at import time: the two datasets \<open>test_data\<close> and
  \<open>bar_test_data\<close> that play the data source, and the system clock, given as the
  sequence of values that successive calls of \<open>datetime.datetime.now()\<close> return.
\<close>

record env =
  test_data :: dataset
  bar_test_data :: dataset
  clock :: "nat \<Rightarrow> datetime"

definition init_handler :: handler where
  "init_handler = \<lparr>data = None, bar_data = None, last_load_time = None,
                    bar_last_load_time = None, cache_duration = 600\<rparr>"

definition now :: "env \<Rightarrow> world \<Rightarrow> datetime \<times> world" where
  "now E w = (clock E (ticks w), w\<lparr>ticks := Suc (ticks w)\<rparr>)"

text \<open>
  \<open>_is_cache_valid\<close>. The source compares the float \<open>total_seconds()\<close>, the microsecond
  count divided by \<open>10**6\<close> and rounded to a double, with \<open>cache_duration\<close>. Here the
  comparison is made on the exact microsecond count. For the \<open>cache_duration\<close> of 600
  that the constructor sets, and that no method changes, the two agree on every count:
  the rounding is monotone, 600 is a double, and the largest quotient below 600,
  599.999999, is not rounded up to it. For a \<open>cache_duration\<close> beyond about \<open>10^10\<close> they can
  differ, so the properties of freshness below are stated for 600.
\<close>

definition is_cache_valid :: "env \<Rightarrow> datetime option \<Rightarrow> world \<Rightarrow> bool \<times> world" where
  "is_cache_valid E llt w =
     (case llt of
        None \<Rightarrow> (False, w)
      | Some t \<Rightarrow>
          (case now E w of
             (n, w') \<Rightarrow> (micros_between t n < cache_duration (self w') * 1000000, w')))"

text \<open>\<open>_update_cache\<close>\<close>

definition update_cache :: "env \<Rightarrow> string \<Rightarrow> world \<Rightarrow> world" where
  "update_cache E data_type w =
     (if data_type = ''line'' then
        (case now E (w\<lparr>loads := Suc (loads w)\<rparr>) of
           (n, w') \<Rightarrow> w'\<lparr>self := (self w')\<lparr>data := Some (test_data E), last_load_time := Some n\<rparr>\<rparr>)
      else if data_type = ''bar'' then
        (case now E (w\<lparr>loads := Suc (loads w)\<rparr>) of
           (n, w') \<Rightarrow> w'\<lparr>self := (self w')\<lparr>bar_data := Some (bar_test_data E),
                                             bar_last_load_time := Some n\<rparr>\<rparr>)
      else w)"

text \<open>\<open>get_data\<close>; the query string is not used. Printing reads the clock once.\<close>

definition get_data :: "env \<Rightarrow> string \<Rightarrow> world \<Rightarrow> dataset option \<times> world" where
  "get_data E query w =
     (case is_cache_valid E (last_load_time (self w)) w of
        (valid, w1) \<Rightarrow>
          if valid then (data (self w1), w1)
          else (case now E w1 of
                  (_, w2) \<Rightarrow> (let w3 = update_cache E ''line'' w2 in (data (self w3), w3))))"

definition get_data_from_table :: "env \<Rightarrow> string \<Rightarrow> world \<Rightarrow> dataset option \<times> world" where
  "get_data_from_table E table w = get_data E ''table_query'' w"

definition get_available_features :: "env \<Rightarrow> string list" where
  "get_available_features E = filter (\<lambda>key. key \<noteq> ''timestamp'') (map fst (bar_test_data E))"

definition clear_cache :: "world \<Rightarrow> world" where
  "clear_cache w = w\<lparr>self := (self w)\<lparr>data := None, bar_data := None, last_load_time := None,
                                       bar_last_load_time := None\<rparr>\<rparr>"

subsection \<open>Cache status\<close>

text \<open>
  One entry of the status dict. \<open>age_micros\<close> is the exact length of the timedelta
  \<open>now() - last_load_time\<close>; the source shows it as \<open>age_minutes\<close>, its
  \<open>total_seconds()\<close> divided by 60 and rounded to one decimal, a floating-point display
  step that is left out here. Likewise \<open>cache_duration_seconds\<close> is \<open>cache_duration\<close>,
  which the source shows divided by 60.
\<close>

record cache_entry =
  valid :: bool
  last_load :: "string option"
  age_micros :: "int option"

record cache_status =
  line_cache :: cache_entry
  bar_cache :: cache_entry
  cache_duration_seconds :: int

text \<open>The number of clock readings that a check of a slot takes: none without a load time.\<close>

definition clock_reads :: "datetime option \<Rightarrow> nat" where
  "clock_reads llt = (case llt of None \<Rightarrow> 0 | Some t \<Rightarrow> 1)"

definition age_of :: "env \<Rightarrow> datetime option \<Rightarrow> world \<Rightarrow> int option \<times> world" where
  "age_of E llt w =
     (case llt of
        None \<Rightarrow> (None, w)
      | Some t \<Rightarrow> (case now E w of (n, w') \<Rightarrow> (Some (micros_between t n), w')))"

definition get_cache_status :: "env \<Rightarrow> world \<Rightarrow> cache_status \<times> world" where
  "get_cache_status E w =
     (case is_cache_valid E (last_load_time (self w)) w of
        (line_cache_valid, w1) \<Rightarrow>
     (case is_cache_valid E (bar_last_load_time (self w1)) w1 of
        (bar_cache_valid, w2) \<Rightarrow>
     (case age_of E (last_load_time (self w2)) w2 of
        (line_age, w3) \<Rightarrow>
     (case age_of E (bar_last_load_time (self w3)) w3 of
        (bar_age, w4) \<Rightarrow>
       (\<lparr>line_cache = \<lparr>valid = line_cache_valid,
                        last_load = map_option strftime_Ymd_HMS (last_load_time (self w4)),
                        age_micros = line_age\<rparr>,
         bar_cache = \<lparr>valid = bar_cache_valid,
                       last_load = map_option strftime_Ymd_HMS (bar_last_load_time (self w4)),
                       age_micros = bar_age\<rparr>,
         cache_duration_seconds = cache_duration (self w4)\<rparr>, w4)))))"

section \<open>\<open>get_bar_data\<close>\<close>

subsection \<open>Loading the bar dataset (lines 87 to 101)\<close>

text \<open>
  Returns the working copy \<open>filtered_data\<close>. \<open>dict.copy()\<close> is a shallow copy, and the
  lists in it are never mutated, so the copy is the same value. The reload branch prints
  the time (one reading of the clock) before \<open>_update_cache\<close>.
\<close>

definition load_bar :: "env \<Rightarrow> world \<Rightarrow> dataset \<times> world" where
  "load_bar E w =
     (case is_cache_valid E (bar_last_load_time (self w)) w of
        (fresh, w1) \<Rightarrow>
          if fresh \<and> truthy_data (bar_data (self w1))
          then (case bar_data (self w1) of Some ds \<Rightarrow> (ds, w1) | None \<Rightarrow> ([], w1))
          else (case now E w1 of
                  (_, w2) \<Rightarrow>
                    (let w3 = update_cache E ''bar'' w2
                     in if truthy_data (bar_data (self w3))
                        then (case bar_data (self w3) of Some ds \<Rightarrow> (ds, w3) | None \<Rightarrow> ([], w3))
                        else (bar_test_data E, w3))))"

subsection \<open>The date window (lines 103 to 115)\<close>

text \<open>
  The indices \<open>i\<close> with \<open>start_dt <= ts <= end_dt\<close>, counted from \<open>i\<close>. Comparing a
  datetime with a cell that is not one raises TypeError.
\<close>

fun filtered_indices :: "datetime \<Rightarrow> datetime \<Rightarrow> nat \<Rightarrow> cell list \<Rightarrow> error + nat list" where
  "filtered_indices start_dt end_dt i [] = Inr []"
| "filtered_indices start_dt end_dt i (c # cs) =
     (case c of
        Ts ts \<Rightarrow>
          (case filtered_indices start_dt end_dt (Suc i) cs of
             Inl e \<Rightarrow> Inl e
           | Inr is \<Rightarrow> Inr (if dt_le start_dt ts \<and> dt_le ts end_dt then i # is else is))
      | _ \<Rightarrow> Inl TypeError)"

text \<open>
  \<open>[self.bar_data[name][i] for i in filtered_indices]\<close>: the column is looked up once per
  index, so a missing column raises only when there is an index to serve.
\<close>

fun pick :: "dataset \<Rightarrow> string \<Rightarrow> nat list \<Rightarrow> error + cell list" where
  "pick ds name [] = Inr []"
| "pick ds name (i # is) =
     (case map_of ds name of
        None \<Rightarrow> Inl (KeyError name)
      | Some col \<Rightarrow>
          if i < length col
          then (case pick ds name is of Inl e \<Rightarrow> Inl e | Inr vs \<Rightarrow> Inr (col ! i # vs))
          else Inl IndexError)"

text \<open>
  The window itself. The start date is parsed first, then the end date, before any row is
  looked at; the end of the window is the end date with its time set to 23:59:59 (its
  microseconds are kept). The two filtered columns are put into the working copy, whose
  other columns stay as they are.
\<close>

definition range_filter ::
  "dataset option \<Rightarrow> dataset \<Rightarrow> string \<Rightarrow> string option \<Rightarrow> string option \<Rightarrow> error + dataset" where
  "range_filter self_bar_data filtered_data feature start_date end_date =
     (if truthy_str start_date \<and> truthy_str end_date \<and> truthy_data self_bar_data then
        (case (self_bar_data, start_date, end_date) of
           (Some bar, Some sd, Some ed) \<Rightarrow>
             (case fromisoformat sd of
                None \<Rightarrow> Inl (if rejects sd then ValueError else NotModelled)
              | Some start_dt \<Rightarrow>
             (case fromisoformat ed of
                None \<Rightarrow> Inl (if rejects ed then ValueError else NotModelled)
              | Some end_dt0 \<Rightarrow>
             (let end_dt = end_dt0\<lparr>hour := 23, minute := 59, second := 59\<rparr>
              in case map_of bar ''timestamp'' of
                   None \<Rightarrow> Inl (KeyError ''timestamp'')
                 | Some tcol \<Rightarrow>
                (case filtered_indices start_dt end_dt 0 tcol of
                   Inl e \<Rightarrow> Inl e
                 | Inr is \<Rightarrow>
                (case pick bar ''timestamp'' is of
                   Inl e \<Rightarrow> Inl e
                 | Inr ts' \<Rightarrow>
                (case pick bar feature is of
                   Inl e \<Rightarrow> Inl e
                 | Inr vs' \<Rightarrow>
                     Inr (AList.update feature vs'
                            (AList.update ''timestamp'' ts' filtered_data))))))))
         | _ \<Rightarrow> Inr filtered_data)
      else Inr filtered_data)"

subsection \<open>Bucket keys\<close>

definition hour_key :: "datetime \<Rightarrow> error + string" where
  "hour_key ts = Inr (strftime_Ymd_H00 ts)"

definition day_key :: "datetime \<Rightarrow> error + string" where
  "day_key ts = Inr (strftime_Ymd ts)"

definition week_key :: "datetime \<Rightarrow> error + string" where
  "week_key ts =
     (case sub_days ts (weekday ts) of
        Inl e \<Rightarrow> Inl e
      | Inr week_start \<Rightarrow> Inr (strftime_Ymd week_start))"

definition month_key :: "datetime \<Rightarrow> error + string" where
  "month_key ts = Inr (strftime_Ym ts)"

definition quarter_key :: "datetime \<Rightarrow> error + string" where
  "quarter_key ts =
     (let y = year ts; quarter = (month ts - 1) div 3 + 1
      in Inr (str_int y @ ''-Q'' @ str_int quarter))"

subsection \<open>Grouping and counting (lines 118 to 231)\<close>

type_synonym counts = "(cell \<times> int) list"

type_synonym bins = "(string \<times> counts) list"

record bar_record =
  date :: string
  "value" :: cell
  count :: int

text \<open>\<open>counts[value] = counts.get(value, 0) + 1\<close>\<close>

definition bump :: "counts \<Rightarrow> cell \<Rightarrow> counts" where
  "bump cs v = AList.update v ((case map_of cs v of None \<Rightarrow> 0 | Some c \<Rightarrow> c) + 1) cs"

text \<open>
  The loop over \<open>enumerate(filtered_data["timestamp"])\<close>, from row \<open>i\<close> on. The five
  branches of the source run this same loop and differ only in the key they compute,
  which is the parameter \<open>key_of\<close>. A cell without \<open>strftime\<close>, \<open>weekday\<close>, \<open>year\<close>
  raises AttributeError.
\<close>

fun bin_rows ::
  "(datetime \<Rightarrow> error + string) \<Rightarrow> dataset \<Rightarrow> string \<Rightarrow> nat \<Rightarrow> cell list \<Rightarrow> bins \<Rightarrow> error + bins" where
  "bin_rows key_of fd feature i [] bins = Inr bins"
| "bin_rows key_of fd feature i (c # cs) bins =
     (case c of
        Ts ts \<Rightarrow>
          (case key_of ts of
             Inl e \<Rightarrow> Inl e
           | Inr key \<Rightarrow>
               (let bins1 = (if map_of bins key = None then AList.update key [] bins else bins)
                in case map_of fd feature of
                     None \<Rightarrow> Inl (KeyError feature)
                   | Some col \<Rightarrow>
                       if i < length col
                       then bin_rows key_of fd feature (Suc i) cs
                              (AList.update key
                                 (bump (case map_of bins1 key of Some cnts \<Rightarrow> cnts | None \<Rightarrow> [])
                                    (col ! i))
                                 bins1)
                       else Inl IndexError))
      | _ \<Rightarrow> Inl AttributeError)"

text \<open>The result list: one record per value of every bin, in insertion order.\<close>

definition emit :: "bins \<Rightarrow> bar_record list" where
  "emit bins =
     concat (map (\<lambda>(key, cnts). map (\<lambda>(v, c). \<lparr>date = key, value = v, count = c\<rparr>) cnts) bins)"

definition group_count ::
  "(datetime \<Rightarrow> error + string) \<Rightarrow> dataset \<Rightarrow> string \<Rightarrow> error + bar_record list" where
  "group_count key_of fd feature =
     (case map_of fd ''timestamp'' of
        None \<Rightarrow> Inl (KeyError ''timestamp'')
      | Some tcol \<Rightarrow>
          (case bin_rows key_of fd feature 0 tcol [] of
             Inl e \<Rightarrow> Inl e
           | Inr bins \<Rightarrow> Inr (emit bins)))"

text \<open>
  The \<open>if\<close>/\<open>elif\<close> chain on \<open>bin_size\<close>; \<open>None\<close> is the final \<open>else\<close>, where the
  source calls itself.
\<close>

definition bin_branches :: "string \<Rightarrow> dataset \<Rightarrow> string \<Rightarrow> (error + bar_record list) option" where
  "bin_branches bin_size fd feature =
     (if bin_size = ''1H'' then Some (group_count hour_key fd feature)
      else if bin_size = ''1D'' then Some (group_count day_key fd feature)
      else if bin_size = ''1W'' then Some (group_count week_key fd feature)
      else if bin_size = ''1M'' then Some (group_count month_key fd feature)
      else if bin_size = ''3M'' then Some (group_count quarter_key fd feature)
      else None)"

subsection \<open>The method\<close>

function get_bar_data ::
  "env \<Rightarrow> string \<Rightarrow> string option \<Rightarrow> string option \<Rightarrow> string \<Rightarrow> world
   \<Rightarrow> (error + bar_record list) \<times> world" where
  "get_bar_data E feature start_date end_date bin_size w =
     (case load_bar E w of
        (filtered_data, w') \<Rightarrow>
          (case range_filter (bar_data (self w')) filtered_data feature start_date end_date of
             Inl e \<Rightarrow> (Inl e, w')
           | Inr fd \<Rightarrow>
               (case bin_branches bin_size fd feature of
                  Some r \<Rightarrow> (r, w')
                | None \<Rightarrow> get_bar_data E feature start_date end_date ''1D'' w')))"
  by pat_completeness auto
termination
proof (relation "measure (\<lambda>(E, feature, start_date, end_date, bin_size, w).
                   if bin_size \<in> {''1H'', ''1D'', ''1W'', ''1M'', ''3M''} then 0 else 1)")
  show "wf (measure (\<lambda>(E, feature, start_date, end_date, bin_size, w).
                   if bin_size \<in> {''1H'', ''1D'', ''1W'', ''1M'', ''3M''} then 0 else (1::nat)))"
    by simp
next
  fix E :: env and feature :: string and start_date end_date :: "string option"
    and bin_size :: string and w w' :: world and filtered_data fd :: dataset
  assume "bin_branches bin_size fd feature = None"
  then have "bin_size \<notin> {''1H'', ''1D'', ''1W'', ''1M'', ''3M''}"
    by (auto simp: bin_branches_def split: if_splits)
  then show "((E, feature, start_date, end_date, ''1D'', w'),
              (E, feature, start_date, end_date, bin_size, w))
             \<in> measure (\<lambda>(E, feature, start_date, end_date, bin_size, w).
                   if bin_size \<in> {''1H'', ''1D'', ''1W'', ''1M'', ''3M''} then 0 else 1)"
    by simp
qed

declare get_bar_data.simps [simp del]

text \<open>
  The same method with the depth of its calls bounded: each activation uses one unit of
  fuel, and \<open>None\<close> means the fuel ran out before the outermost call returned.
\<close>

fun get_bar_data_fuel ::
  "nat \<Rightarrow> env \<Rightarrow> string \<Rightarrow> string option \<Rightarrow> string option \<Rightarrow> string \<Rightarrow> world
   \<Rightarrow> ((error + bar_record list) \<times> world) option" where
  "get_bar_data_fuel 0 E feature start_date end_date bin_size w = None"
| "get_bar_data_fuel (Suc k) E feature start_date end_date bin_size w =
     (case load_bar E w of
        (filtered_data, w') \<Rightarrow>
          (case range_filter (bar_data (self w')) filtered_data feature start_date end_date of
             Inl e \<Rightarrow> Some (Inl e, w')
           | Inr fd \<Rightarrow>
               (case bin_branches bin_size fd feature of
                  Some r \<Rightarrow> Some (r, w')
                | None \<Rightarrow> get_bar_data_fuel k E feature start_date end_date ''1D'' w')))"

subsection \<open>The states the handler can be in\<close>

inductive reachable :: "env \<Rightarrow> world \<Rightarrow> bool" for E :: env where
  r_init: "reachable E \<lparr>self = init_handler, ticks = k, loads = 0\<rparr>"
| r_get_data: "reachable E w \<Longrightarrow> reachable E (snd (get_data E query w))"
| r_get_bar_data:
    "reachable E w \<Longrightarrow> reachable E (snd (get_bar_data E feature start_date end_date bin_size w))"
| r_clear_cache: "reachable E w \<Longrightarrow> reachable E (clear_cache w)"
| r_get_cache_status: "reachable E w \<Longrightarrow> reachable E (snd (get_cache_status E w))"

subsection \<open>A small concrete handler\<close>

definition mk_datetime :: "int \<Rightarrow> int \<Rightarrow> int \<Rightarrow> int \<Rightarrow> int \<Rightarrow> int \<Rightarrow> datetime" where
  "mk_datetime y m d hh mm ss =
     \<lparr>year = y, month = m, day = d, hour = hh, minute = mm, second = ss, microsecond = 0\<rparr>"

text \<open>Three rows and three columns; the clock's \<open>k\<close>-th reading is \<open>k\<close> minutes past midnight.\<close>

definition ex_bar :: dataset where
  "ex_bar =
     [(''timestamp'', [Ts (mk_datetime 2024 1 1 0 0 0), Ts (mk_datetime 2024 1 3 23 59 59),
                       Ts (mk_datetime 2024 3 15 10 30 0)]),
      (''status'', [Str ''active'', Str ''failed'', Str ''active'']),
      (''user'', [Str ''alice'', Str ''bob'', Str ''eve''])]"

definition ex_env :: env where
  "ex_env = \<lparr>test_data = [], bar_test_data = ex_bar,
              clock = (\<lambda>k. mk_datetime 2024 4 1 0 (int k) 0)\<rparr>"

definition ex_world :: world where
  "ex_world = \<lparr>self = init_handler, ticks = 0, loads = 0\<rparr>"

text \<open>
  The same data under a clock that moves four minutes per reading, and the handler after
  one call of \<open>get_bar_data\<close> and one of \<open>get_data\<close> there: the bar slot was loaded
  at 00:04 and the line slot at 00:12.
\<close>

text \<open>A data source of two columns and no rows.\<close>

definition ex_norows :: env where
  "ex_norows = \<lparr>test_data = [], bar_test_data = [(''timestamp'', []), (''status'', [])],
                 clock = (\<lambda>k. mk_datetime 2024 4 1 0 (int k) 0)\<rparr>"

definition ex_slow :: env where
  "ex_slow = \<lparr>test_data = [], bar_test_data = ex_bar,
               clock = (\<lambda>k. mk_datetime 2024 4 1 0 (4 * int k) 0)\<rparr>"

definition ex_loaded :: world where
  "ex_loaded = snd (get_data ex_slow ''q''
                      (snd (get_bar_data ex_slow ''status'' None None ''1D'' ex_world)))"

section \<open>Properties\<close>

subsection \<open>Frame lemmas\<close>

lemma now_simps [simp]:
  "self (snd (now E w)) = self w"
  "loads (snd (now E w)) = loads w"
  "fst (now E w) = clock E (ticks w)"
  "ticks (snd (now E w)) = Suc (ticks w)"
  by (simp_all add: now_def)

lemma is_cache_valid_frame [simp]:
  "self (snd (is_cache_valid E llt w)) = self w"
  "loads (snd (is_cache_valid E llt w)) = loads w"
  by (simp_all add: is_cache_valid_def now_def split: option.splits)

lemma age_of_frame [simp]:
  "self (snd (age_of E llt w)) = self w"
  "loads (snd (age_of E llt w)) = loads w"
  by (simp_all add: age_of_def now_def split: option.splits)

subsection \<open>The calendar\<close>

lemma divmod_decomp:
  fixes k q r :: int
  assumes "0 \<le> r" "r < k"
  shows "(k * q + r) div k = q" "(k * q + r) mod k = r"
  using assms by (simp_all add: div_pos_pos_trivial mod_pos_pos_trivial)

lemma d4:
  fixes a b c e :: int
  assumes "0 \<le> e" "e \<le> 3"
  shows "(400 * a + 100 * b + 4 * c + e) div 4 = 100 * a + 25 * b + c"
proof -
  have "400 * a + 100 * b + 4 * c + e = 4 * (100 * a + 25 * b + c) + e" by simp
  then show ?thesis using divmod_decomp(1)[of e 4 "100 * a + 25 * b + c"] assms by simp
qed

lemma d100:
  fixes a b c e :: int
  assumes "0 \<le> c" "c \<le> 24" "0 \<le> e" "e \<le> 3"
  shows "(400 * a + 100 * b + 4 * c + e) div 100 = 4 * a + b"
proof -
  have "400 * a + 100 * b + 4 * c + e = 100 * (4 * a + b) + (4 * c + e)" by simp
  then show ?thesis using divmod_decomp(1)[of "4 * c + e" 100 "4 * a + b"] assms by simp
qed

lemma d400:
  fixes a b c e :: int
  assumes "0 \<le> b" "b \<le> 3" "0 \<le> c" "c \<le> 24" "0 \<le> e" "e \<le> 3"
  shows "(400 * a + 100 * b + 4 * c + e) div 400 = a"
proof -
  have "400 * a + 100 * b + 4 * c + e = 400 * a + (100 * b + 4 * c + e)" by simp
  then show ?thesis using divmod_decomp(1)[of "100 * b + 4 * c + e" 400 a] assms by simp
qed

lemma dby_decomp:
  fixes a b c e :: int
  assumes "0 \<le> b" "b \<le> 3" "0 \<le> c" "c \<le> 24" "0 \<le> e" "e \<le> 3"
  shows "days_before_year (400 * a + 100 * b + 4 * c + e + 1)
         = 146097 * a + 36524 * b + 1461 * c + 365 * e"
  unfolding days_before_year_def Let_def
  using d4[of e a b c] d100[of c e a b] d400[of b c e a] assms by simp

lemma decompI:
  fixes x k q r :: int
  assumes "x = k * q + r" "0 \<le> r" "r < k"
  shows "x mod k = r" "x div k = q"
  unfolding assms(1) using assms(2,3) by (rule divmod_decomp(2), rule divmod_decomp(1))

lemma leap_decomp:
  fixes a b c e :: int
  assumes "0 \<le> b" "b \<le> 3" "0 \<le> c" "c \<le> 24" "0 \<le> e" "e \<le> 3"
  shows "is_leap (400 * a + 100 * b + 4 * c + e + 1) = (e = 3 \<and> (c \<noteq> 24 \<or> b = 3))"
proof -
  define Y where "Y = 400 * a + 100 * b + 4 * c + e + 1"
  have goal: "is_leap Y = (e = 3 \<and> (c \<noteq> 24 \<or> b = 3))"
  proof (cases "e = 3")
    case False
    have "Y mod 4 = e + 1"
      by (rule decompI(1)[where q = "100 * a + 25 * b + c"]) (use assms False in \<open>simp_all add: Y_def\<close>)
    then show ?thesis using False assms by (simp add: is_leap_def)
  next
    case e3: True
    have m4: "Y mod 4 = 0"
      by (rule decompI(1)[where q = "100 * a + 25 * b + c + 1"]) (use e3 in \<open>simp_all add: Y_def\<close>)
    show ?thesis
    proof (cases "c = 24")
      case False
      have "Y mod 100 = 4 * c + 4"
        by (rule decompI(1)[where q = "4 * a + b"]) (use assms e3 False in \<open>simp_all add: Y_def\<close>)
      then show ?thesis using False e3 m4 assms by (simp add: is_leap_def)
    next
      case c24: True
      have m100: "Y mod 100 = 0"
        by (rule decompI(1)[where q = "4 * a + b + 1"]) (use e3 c24 in \<open>simp_all add: Y_def\<close>)
      show ?thesis
      proof (cases "b = 3")
        case True
        have "Y mod 400 = 0"
          by (rule decompI(1)[where q = "a + 1"]) (use e3 c24 True in \<open>simp_all add: Y_def\<close>)
        then show ?thesis using e3 c24 True m4 m100 by (simp add: is_leap_def)
      next
        case False
        have "Y mod 400 = 100 * b + 100"
          by (rule decompI(1)[where q = a]) (use assms e3 c24 False in \<open>simp_all add: Y_def\<close>)
        then show ?thesis using e3 c24 False m4 m100 assms by (simp add: is_leap_def)
      qed
    qed
  qed
  then show ?thesis by (simp add: Y_def)
qed


lemma month_estimate:
  fixes nd :: int
  assumes "0 \<le> nd" "nd \<le> 364"
  shows "(nd + 50) div 32 \<in> {1, 2, 3, 4, 5, 6, 7, 8, 9, 10, 11, 12}
         \<and> 32 * ((nd + 50) div 32) \<le> nd + 50 \<and> nd + 50 < 32 * ((nd + 50) div 32) + 32"
proof -
  define m where "m = (nd + 50) div 32"
  have e: "nd + 50 = 32 * m + (nd + 50) mod 32" by (simp add: m_def)
  have r: "0 \<le> (nd + 50) mod 32" "(nd + 50) mod 32 < 32" by simp_all
  have b: "32 * m \<le> nd + 50" "nd + 50 < 32 * m + 32" using e r by linarith+
  then have "1 \<le> m" "m \<le> 12" using assms by linarith+
  then have "m \<in> {1, 2, 3, 4, 5, 6, 7, 8, 9, 10, 11, 12}" by simp presburger
  then show ?thesis using b by (simp add: m_def)
qed

lemma month_day_ok:
  fixes nd :: int
  assumes "0 \<le> nd" "nd \<le> 364"
  shows "case month_day leap nd of (mm, dd) \<Rightarrow>
           1 \<le> mm \<and> mm \<le> 12 \<and> 1 \<le> dd
           \<and> dd \<le> (if mm = 2 \<and> leap then 29 else DAYS_IN_MONTH mm)
           \<and> DAYS_BEFORE_MONTH mm + (if mm > 2 \<and> leap then 1 else 0) + dd = nd + 1"
proof -
  define m where "m = (nd + 50) div 32"
  from month_estimate[OF assms]
  have mc: "m \<in> {1, 2, 3, 4, 5, 6, 7, 8, 9, 10, 11, 12}"
    and lo: "32 * m \<le> nd + 50" and hi: "nd + 50 < 32 * m + 32"
    by (simp_all add: m_def)
  have md: "month_day leap nd =
     (let preceding = DAYS_BEFORE_MONTH m + (if m > 2 \<and> leap then 1 else 0)
      in if preceding > nd
         then let m' = m - 1;
                  preceding' = preceding - (DAYS_IN_MONTH m' + (if m' = 2 \<and> leap then 1 else 0))
              in (m', nd - preceding' + 1)
         else (m, nd - preceding + 1))"
    by (simp add: month_day_def m_def Let_def)
  from mc consider "m = 1" | "m = 2" | "m = 3" | "m = 4" | "m = 5" | "m = 6" | "m = 7"
    | "m = 8" | "m = 9" | "m = 10" | "m = 11" | "m = 12" by auto
  then show ?thesis
  proof cases
    case 1 then show ?thesis using lo hi assms unfolding md
      by (simp add: DAYS_BEFORE_MONTH_def DAYS_IN_MONTH_def Let_def)
  next
    case 2 then show ?thesis using lo hi assms unfolding md
      by (simp add: DAYS_BEFORE_MONTH_def DAYS_IN_MONTH_def Let_def)
  next
    case 3 then show ?thesis using lo hi assms unfolding md
      by (simp add: DAYS_BEFORE_MONTH_def DAYS_IN_MONTH_def Let_def)
  next
    case 4 then show ?thesis using lo hi assms unfolding md
      by (simp add: DAYS_BEFORE_MONTH_def DAYS_IN_MONTH_def Let_def)
  next
    case 5 then show ?thesis using lo hi assms unfolding md
      by (simp add: DAYS_BEFORE_MONTH_def DAYS_IN_MONTH_def Let_def)
  next
    case 6 then show ?thesis using lo hi assms unfolding md
      by (simp add: DAYS_BEFORE_MONTH_def DAYS_IN_MONTH_def Let_def)
  next
    case 7 then show ?thesis using lo hi assms unfolding md
      by (simp add: DAYS_BEFORE_MONTH_def DAYS_IN_MONTH_def Let_def)
  next
    case 8 then show ?thesis using lo hi assms unfolding md
      by (simp add: DAYS_BEFORE_MONTH_def DAYS_IN_MONTH_def Let_def)
  next
    case 9 then show ?thesis using lo hi assms unfolding md
      by (simp add: DAYS_BEFORE_MONTH_def DAYS_IN_MONTH_def Let_def)
  next
    case 10 then show ?thesis using lo hi assms unfolding md
      by (simp add: DAYS_BEFORE_MONTH_def DAYS_IN_MONTH_def Let_def)
  next
    case 11 then show ?thesis using lo hi assms unfolding md
      by (simp add: DAYS_BEFORE_MONTH_def DAYS_IN_MONTH_def Let_def)
  next
    case 12 then show ?thesis using lo hi assms unfolding md
      by (simp add: DAYS_BEFORE_MONTH_def DAYS_IN_MONTH_def Let_def)
  qed
qed


lemma split4:
  fixes n :: int
  assumes "0 \<le> n"
  obtains a b c e nd where
    "n = 146097 * a + 36524 * b + 1461 * c + 365 * e + nd"
    "0 \<le> a" "0 \<le> b" "b \<le> 4" "0 \<le> c" "c \<le> 24" "0 \<le> e" "e \<le> 4" "0 \<le> nd" "nd \<le> 364"
    "b = 4 \<longrightarrow> c = 0 \<and> e = 0 \<and> nd = 0"
    "e = 4 \<longrightarrow> nd = 0 \<and> (c \<le> 23 \<or> b = 4)"
    "a = n div 146097" "b = (n mod 146097) div 36524"
    "c = ((n mod 146097) mod 36524) div 1461"
    "e = (((n mod 146097) mod 36524) mod 1461) div 365"
    "nd = (((n mod 146097) mod 36524) mod 1461) mod 365"
proof -
  define a where "a = n div 146097"
  define na where "na = n mod 146097"
  define b where "b = na div 36524"
  define nb where "nb = na mod 36524"
  define c where "c = nb div 1461"
  define nc where "nc = nb mod 1461"
  define e where "e = nc div 365"
  define nd where "nd = nc mod 365"
  have n: "n = 146097 * a + na" and na: "0 \<le> na" "na < 146097"
    by (simp_all add: a_def na_def)
  have a0: "0 \<le> a" using assms by (simp add: a_def pos_imp_zdiv_nonneg_iff)
  have nae: "na = 36524 * b + nb" and nb: "0 \<le> nb" "nb < 36524"
    by (simp_all add: b_def nb_def)
  have nbe: "nb = 1461 * c + nc" and nc: "0 \<le> nc" "nc < 1461"
    by (simp_all add: c_def nc_def)
  have nce: "nc = 365 * e + nd" and nd: "0 \<le> nd" "nd < 365"
    by (simp_all add: e_def nd_def)
  have b: "0 \<le> b" "b \<le> 4" using nae na nb by linarith+
  have c: "0 \<le> c" "c \<le> 24" using nbe nb nc by linarith+
  have e: "0 \<le> e" "e \<le> 4" using nce nc nd by linarith+
  have b4: "b = 4 \<longrightarrow> c = 0 \<and> e = 0 \<and> nd = 0"
  proof
    assume "b = 4"
    then have "nb = 0" using nae na nb by linarith
    then have "c = 0" "nc = 0" using nbe nc c by linarith+
    then have "e = 0" "nd = 0" using nce nd e by linarith+
    then show "c = 0 \<and> e = 0 \<and> nd = 0" using \<open>c = 0\<close> by simp
  qed
  have e4: "e = 4 \<longrightarrow> nd = 0 \<and> (c \<le> 23 \<or> b = 4)"
  proof
    assume "e = 4"
    then have "nd = 0" "nc = 1460" using nce nc nd by linarith+
    moreover have "c \<le> 23" using nbe nb \<open>nc = 1460\<close> by linarith
    ultimately show "nd = 0 \<and> (c \<le> 23 \<or> b = 4)" by simp
  qed
  have full: "n = 146097 * a + 36524 * b + 1461 * c + 365 * e + nd"
    using n nae nbe nce by linarith
  have nd': "nd \<le> 364" using nd by linarith
  have d1: "a = n div 146097" by (simp only: a_def)
  have d2: "b = (n mod 146097) div 36524" by (simp only: b_def na_def)
  have d3: "c = ((n mod 146097) mod 36524) div 1461" by (simp only: c_def nb_def na_def)
  have d4: "e = (((n mod 146097) mod 36524) mod 1461) div 365"
    by (simp only: e_def nc_def nb_def na_def)
  have d5: "nd = (((n mod 146097) mod 36524) mod 1461) mod 365"
    by (simp only: nd_def nc_def nb_def na_def)
  show thesis
    by (rule that[OF full a0 b c e nd(1) nd' b4 e4 d1 d2 d3 d4 d5])
qed


lemma ord2ymd_ok:
  assumes "1 \<le> n0"
  shows "\<exists>y m d. ord2ymd n0 = (y, m, d) \<and> ymd2ord y m d = n0 \<and> 1 \<le> y
           \<and> 1 \<le> m \<and> m \<le> 12 \<and> 1 \<le> d \<and> d \<le> days_in_month y m
           \<and> (n0 \<le> MAXORDINAL \<longrightarrow> y \<le> 9999)"
proof -
  have "0 \<le> n0 - 1" using assms by simp
  then obtain a b c e nd where
    full: "n0 - 1 = 146097 * a + 36524 * b + 1461 * c + 365 * e + nd"
    and r: "0 \<le> a" "0 \<le> b" "b \<le> 4" "0 \<le> c" "c \<le> 24" "0 \<le> e" "e \<le> 4" "0 \<le> nd" "nd \<le> 364"
    and b4: "b = 4 \<longrightarrow> c = 0 \<and> e = 0 \<and> nd = 0"
    and e4: "e = 4 \<longrightarrow> nd = 0 \<and> (c \<le> 23 \<or> b = 4)"
    and d: "a = (n0 - 1) div 146097" "b = ((n0 - 1) mod 146097) div 36524"
      "c = (((n0 - 1) mod 146097) mod 36524) div 1461"
      "e = ((((n0 - 1) mod 146097) mod 36524) mod 1461) div 365"
      "nd = ((((n0 - 1) mod 146097) mod 36524) mod 1461) mod 365"
    by (rule split4)
  have o: "ord2ymd n0 =
      (if e = 4 \<or> b = 4 then (a * 400 + 1 + b * 100 + c * 4 + e - 1, 12, 31)
       else case month_day (e = 3 \<and> (c \<noteq> 24 \<or> b = 3)) nd of
              (m, dd) \<Rightarrow> (a * 400 + 1 + b * 100 + c * 4 + e, m, dd))"
    unfolding ord2ymd_def Let_def d[symmetric] by (rule refl)
  have ybound: "n0 \<le> MAXORDINAL \<longrightarrow> 400 * a + 100 * b + 4 * c + e + 1 \<le> 9999 + (if e = 4 \<or> b = 4 then 1 else 0)"
  proof
    assume "n0 \<le> MAXORDINAL"
    then have le: "146097 * a + 36524 * b + 1461 * c + 365 * e + nd \<le> 3652058"
      using full by (simp add: MAXORDINAL_def)
    have a24: "a \<le> 24" using le r by linarith
    show "400 * a + 100 * b + 4 * c + e + 1 \<le> 9999 + (if e = 4 \<or> b = 4 then 1 else 0)"
    proof (cases "a \<le> 23")
      case True
      then show ?thesis using r by (simp; linarith)
    next
      case False
      then have a: "a = 24" using a24 by linarith
      then have le2: "36524 * b + 1461 * c + 365 * e + nd \<le> 145730" using le by linarith
      then have b3: "b \<le> 3" using r by linarith
      show ?thesis
      proof (cases "b \<le> 2")
        case True
        then show ?thesis using a r by (simp; linarith)
      next
        case False
        then have b: "b = 3" using b3 by linarith
        then have le3: "1461 * c + 365 * e + nd \<le> 36158" using le2 by linarith
        show ?thesis
        proof (cases "c \<le> 23")
          case True
          then show ?thesis using a b r by (simp; linarith)
        next
          case False
          then have c: "c = 24" using r by linarith
          then have "365 * e + nd \<le> 1094" using le3 by linarith
          then have "e \<le> 2" using r by linarith
          then show ?thesis using a b c by simp
        qed
      qed
    qed
  qed
  show ?thesis
  proof (cases "b = 4")
    case True
    then have z: "c = 0" "e = 0" "nd = 0" using b4 by simp_all
    have dby: "days_before_year (400 * a + 100 * 3 + 4 * 24 + 3 + 1) = 146097 * a + 36524 * 3 + 1461 * 24 + 365 * 3"
      by (rule dby_decomp) simp_all
    have lp: "is_leap (400 * a + 100 * 3 + 4 * 24 + 3 + 1) = (3 = (3::int) \<and> ((24::int) \<noteq> 24 \<or> (3::int) = 3))"
      by (rule leap_decomp) simp_all
    have y: "a * 400 + 1 + b * 100 + c * 4 + e - 1 = 400 * a + 100 * 3 + 4 * 24 + 3 + 1"
      using True z by simp
    have "ord2ymd n0 = (400 * a + 100 * 3 + 4 * 24 + 3 + 1, 12, 31)"
      using o True y by simp
    moreover have "ymd2ord (400 * a + 100 * 3 + 4 * 24 + 3 + 1) 12 31 = n0"
      using dby lp full True z
      by (simp add: ymd2ord_def days_before_month_def DAYS_BEFORE_MONTH_def)
    moreover have "(31::int) \<le> days_in_month (400 * a + 100 * 3 + 4 * 24 + 3 + 1) 12"
      by (simp add: days_in_month_def DAYS_IN_MONTH_def)
    moreover have "1 \<le> 400 * a + 100 * 3 + 4 * 24 + 3 + 1" using r by simp
    moreover have "n0 \<le> MAXORDINAL \<longrightarrow> 400 * a + 100 * 3 + 4 * 24 + 3 + 1 \<le> 9999"
      using ybound True z by simp
    ultimately show ?thesis by simp
  next
    case bn4: False
    then have b3: "b \<le> 3" using r by linarith
    show ?thesis
    proof (cases "e = 4")
      case True
      then have z: "nd = 0" "c \<le> 23" using e4 bn4 by simp_all
      have dby: "days_before_year (400 * a + 100 * b + 4 * c + 3 + 1) = 146097 * a + 36524 * b + 1461 * c + 365 * 3"
        by (rule dby_decomp) (use r b3 in simp_all)
      have lp: "is_leap (400 * a + 100 * b + 4 * c + 3 + 1) = (3 = (3::int) \<and> (c \<noteq> 24 \<or> b = 3))"
        by (rule leap_decomp) (use r b3 in simp_all)
      have y: "a * 400 + 1 + b * 100 + c * 4 + e - 1 = 400 * a + 100 * b + 4 * c + 3 + 1"
        using True by simp
      have "ord2ymd n0 = (400 * a + 100 * b + 4 * c + 3 + 1, 12, 31)"
        using o True y by simp
      moreover have "ymd2ord (400 * a + 100 * b + 4 * c + 3 + 1) 12 31 = n0"
        using dby lp full True z
        by (simp add: ymd2ord_def days_before_month_def DAYS_BEFORE_MONTH_def)
      moreover have "(31::int) \<le> days_in_month (400 * a + 100 * b + 4 * c + 3 + 1) 12"
        by (simp add: days_in_month_def DAYS_IN_MONTH_def)
      moreover have "1 \<le> 400 * a + 100 * b + 4 * c + 3 + 1" using r by simp
      moreover have "n0 \<le> MAXORDINAL \<longrightarrow> 400 * a + 100 * b + 4 * c + 3 + 1 \<le> 9999"
        using ybound True by simp
      ultimately show ?thesis by simp
    next
      case en4: False
      then have e3: "e \<le> 3" using r by linarith
      define lp where "lp = (e = 3 \<and> (c \<noteq> 24 \<or> b = 3))"
      define Y where "Y = 400 * a + 100 * b + 4 * c + e + 1"
      have dby: "days_before_year Y = 146097 * a + 36524 * b + 1461 * c + 365 * e"
        unfolding Y_def by (rule dby_decomp) (use r b3 e3 in simp_all)
      have lpe: "is_leap Y = lp"
        unfolding Y_def lp_def by (rule leap_decomp) (use r b3 e3 in simp_all)
      obtain m dd where md: "month_day lp nd = (m, dd)" by (cases "month_day lp nd")
      from month_day_ok[of nd lp] r md
      have mdok: "1 \<le> m" "m \<le> 12" "1 \<le> dd" "dd \<le> (if m = 2 \<and> lp then 29 else DAYS_IN_MONTH m)"
        "DAYS_BEFORE_MONTH m + (if m > 2 \<and> lp then 1 else 0) + dd = nd + 1"
        by simp_all
      have "ord2ymd n0 = (Y, m, dd)"
        using o bn4 en4 md by (simp add: lp_def Y_def)
      moreover have "ymd2ord Y m dd = n0"
        using dby lpe full mdok(5)
        by (simp add: ymd2ord_def days_before_month_def)
      moreover have "dd \<le> days_in_month Y m"
        using mdok(4) lpe by (simp add: days_in_month_def)
      moreover have "1 \<le> Y" using r by (simp add: Y_def)
      moreover have "n0 \<le> MAXORDINAL \<longrightarrow> Y \<le> 9999"
        using ybound bn4 en4 by (simp add: Y_def)
      ultimately show ?thesis using mdok(1,2,3) by simp
    qed
  qed
qed

subsection \<open>Formatting and parsing dates\<close>

lemma digit_val_char: "0 \<le> k \<Longrightarrow> k \<le> 9 \<Longrightarrow> digit_val (digit_char k) = Some k"
proof -
  assume "0 \<le> k" "k \<le> 9"
  then have "k \<in> {0, 1, 2, 3, 4, 5, 6, 7, 8, 9}" by simp presburger
  then show ?thesis by (auto simp: digit_val_def digit_char_def)
qed

lemma str_nat_1: "k < 10 \<Longrightarrow> str_nat k = [digit_char (int k)]"
  by (simp add: str_nat.simps)

lemma str_nat_2:
  "10 \<le> k \<Longrightarrow> k < 100 \<Longrightarrow> str_nat k = [digit_char (int (k div 10)), digit_char (int (k mod 10))]"
  by (subst str_nat.simps) (simp add: str_nat_1)

lemma str_nat_3:
  "100 \<le> k \<Longrightarrow> k < 1000 \<Longrightarrow>
   str_nat k = [digit_char (int (k div 100)), digit_char (int (k div 10 mod 10)),
                digit_char (int (k mod 10))]"
  by (subst str_nat.simps) (simp add: str_nat_2 div_mult2_eq[symmetric])

lemma str_nat_4:
  "1000 \<le> k \<Longrightarrow> k < 10000 \<Longrightarrow>
   str_nat k = [digit_char (int (k div 1000)), digit_char (int (k div 100 mod 10)),
                digit_char (int (k div 10 mod 10)), digit_char (int (k mod 10))]"
  by (subst str_nat.simps) (simp add: str_nat_3 div_mult2_eq[symmetric])

lemma replicate_23:
  "replicate 2 x = [x, x]" "replicate 3 x = [x, x, x]"
  by (simp_all add: numeral_2_eq_2 numeral_3_eq_3)

lemma zfill2:
  assumes "k < 100"
  shows "zfill 2 (str_nat k) = [digit_char (int (k div 10)), digit_char (int (k mod 10))]"
proof (cases "k < 10")
  case True
  then show ?thesis by (simp add: zfill_def str_nat_1 digit_char_def)
next
  case False
  then show ?thesis using assms by (simp add: zfill_def str_nat_2)
qed

lemma zfill4:
  assumes "k < 10000"
  shows "zfill 4 (str_nat k) = [digit_char (int (k div 1000)), digit_char (int (k div 100 mod 10)),
                digit_char (int (k div 10 mod 10)), digit_char (int (k mod 10))]"
proof -
  consider "k < 10" | "10 \<le> k" "k < 100" | "100 \<le> k" "k < 1000" | "1000 \<le> k"
    by linarith
  then show ?thesis
  proof cases
    case 1 then show ?thesis by (simp add: zfill_def str_nat_1 digit_char_def replicate_23)
  next
    case 2 then show ?thesis by (simp add: zfill_def str_nat_2 digit_char_def replicate_23)
  next
    case 3 then show ?thesis by (simp add: zfill_def str_nat_3 digit_char_def)
  next
    case 4 then show ?thesis using assms by (simp add: zfill_def str_nat_4)
  qed
qed

lemma fmt_2_digits:
  assumes "0 \<le> n" "n \<le> 99"
  shows "fmt_2 n = [digit_char (n div 10), digit_char (n mod 10)]"
proof -
  have "nat n < 100" using assms by simp
  from zfill2[OF this] show ?thesis
    using assms by (simp add: fmt_2_def str_int_def zdiv_int zmod_int)
qed

lemma year_digits:
  assumes "0 \<le> year t" "year t \<le> 9999"
  shows "zfill 4 (str_int (year t))
         = [digit_char (year t div 1000), digit_char (year t div 100 mod 10),
            digit_char (year t div 10 mod 10), digit_char (year t mod 10)]"
proof -
  have "nat (year t) < 10000" using assms by simp
  from zfill4[OF this] show ?thesis
    using assms by (simp add: str_int_def zdiv_int zmod_int)
qed

lemma fmt_Y_padded:
  assumes "1000 \<le> year t"
  shows "fmt_Y t = zfill 4 (str_int (year t))"
proof -
  have "length (str_nat k) \<ge> 4" if "1000 \<le> k" for k
  proof -
    have k1: "100 \<le> k div 10" using that by simp
    have k2: "10 \<le> k div 10 div 10" using k1 by simp
    have k3: "1 \<le> k div 10 div 10 div 10" using k2 by simp
    have l3: "length (str_nat (k div 10 div 10 div 10)) \<ge> 1"
      by (subst str_nat.simps) simp
    have l2: "length (str_nat (k div 10 div 10)) \<ge> 2"
      using k2 l3 by (subst str_nat.simps) simp
    have l1: "length (str_nat (k div 10)) \<ge> 3"
      using k1 l2 by (subst str_nat.simps) simp
    show ?thesis using that l1 by (subst str_nat.simps) simp
  qed
  from this[of "nat (year t)"] show ?thesis
    using assms by (simp add: fmt_Y_def zfill_def str_int_def)
qed

lemma num_of_2:
  assumes "0 \<le> n" "n \<le> 99"
  shows "num_of 0 [digit_char (n div 10), digit_char (n mod 10)] = Some n"
proof -
  have e: "n = 10 * (n div 10) + n mod 10" by simp
  have m: "0 \<le> n mod 10" "n mod 10 \<le> 9" by simp_all
  have "0 \<le> n div 10" "n div 10 \<le> 9" using e m assms by linarith+
  then show ?thesis using m by (simp add: digit_val_char)
qed

lemma num_of_4:
  assumes "0 \<le> n" "n \<le> 9999"
  shows "num_of 0 [digit_char (n div 1000), digit_char (n div 100 mod 10),
                   digit_char (n div 10 mod 10), digit_char (n mod 10)] = Some n"
proof -
  have q2: "n div 100 = n div 10 div 10" using zdiv_zmult2_eq[of 10 n 10] by simp
  have q3: "n div 1000 = n div 100 div 10" using zdiv_zmult2_eq[of 10 n 100] by simp
  have e: "n = 1000 * (n div 1000) + n mod 1000" by simp
  have m: "0 \<le> n mod 1000" "n mod 1000 < 1000" by simp_all
  have d3: "0 \<le> n div 1000" "n div 1000 \<le> 9" using e m assms by linarith+
  have i1: "10 * (n div 1000) + n div 100 mod 10 = n div 100" unfolding q3 by simp
  have i2: "10 * (n div 100) + n div 10 mod 10 = n div 10" unfolding q2 by simp
  have i3: "10 * (n div 10) + n mod 10 = n" by simp
  have "num_of 0 [digit_char (n div 1000), digit_char (n div 100 mod 10),
                   digit_char (n div 10 mod 10), digit_char (n mod 10)]
        = Some (10 * (10 * (10 * (n div 1000) + n div 100 mod 10) + n div 10 mod 10) + n mod 10)"
    using d3 by (simp add: digit_val_char)
  then show ?thesis by (simp only: i1 i2 i3)
qed

lemma days_in_month_le: "days_in_month y m \<le> 31"
  by (simp add: days_in_month_def DAYS_IN_MONTH_def)

lemma isoformat_date_digits:
  assumes "valid_datetime t"
  shows "isoformat_date t =
     [digit_char (year t div 1000), digit_char (year t div 100 mod 10),
      digit_char (year t div 10 mod 10), digit_char (year t mod 10), CHR ''-'',
      digit_char (month t div 10), digit_char (month t mod 10), CHR ''-'',
      digit_char (day t div 10), digit_char (day t mod 10)]"
proof -
  have d: "day t \<le> 99" using assms days_in_month_le[of "year t" "month t"]
    by (simp add: valid_datetime_def)
  have "zfill 4 (str_int (year t))
        = [digit_char (year t div 1000), digit_char (year t div 100 mod 10),
           digit_char (year t div 10 mod 10), digit_char (year t mod 10)]"
    using assms by (intro year_digits) (simp_all add: valid_datetime_def)
  moreover have "fmt_2 (month t) = [digit_char (month t div 10), digit_char (month t mod 10)]"
    using assms by (intro fmt_2_digits) (simp_all add: valid_datetime_def)
  moreover have "fmt_2 (day t) = [digit_char (day t div 10), digit_char (day t mod 10)]"
    using assms d by (intro fmt_2_digits) (simp_all add: valid_datetime_def)
  ultimately show ?thesis by (simp add: isoformat_date_def)
qed

lemma strftime_Ymd_iso:
  "1000 \<le> year t \<Longrightarrow> strftime_Ymd t = isoformat_date t"
  by (simp add: strftime_Ymd_def isoformat_date_def fmt_Y_padded)

lemma parse_isoformat_date_iso:
  assumes "valid_datetime t"
  shows "parse_isoformat_date (isoformat_date t) = Some (year t, month t, day t)"
proof -
  have d: "day t \<le> 99" using assms days_in_month_le[of "year t" "month t"]
    by (simp add: valid_datetime_def)
  have y: "num_of 0 [digit_char (year t div 1000), digit_char (year t div 100 mod 10),
      digit_char (year t div 10 mod 10), digit_char (year t mod 10)] = Some (year t)"
    using assms by (intro num_of_4) (simp_all add: valid_datetime_def)
  have m: "num_of 0 [digit_char (month t div 10), digit_char (month t mod 10)] = Some (month t)"
    using assms by (intro num_of_2) (simp_all add: valid_datetime_def)
  have dd: "num_of 0 [digit_char (day t div 10), digit_char (day t mod 10)] = Some (day t)"
    using assms d by (intro num_of_2) (simp_all add: valid_datetime_def)
  show ?thesis
    unfolding isoformat_date_digits[OF assms] parse_isoformat_date_def
    using y m dd by (simp del: num_of.simps)
qed

lemma fromisoformat_isoformat_date:
  assumes "valid_datetime t"
  shows "fromisoformat (isoformat_date t)
         = Some (t\<lparr>hour := 0, minute := 0, second := 0, microsecond := 0\<rparr>)"
proof -
  have l: "length (isoformat_date t) = 10" by (simp add: isoformat_date_digits[OF assms])
  have v: "valid_datetime \<lparr>year = year t, month = month t, day = day t, hour = 0, minute = 0,
             second = 0, microsecond = 0\<rparr>"
    using assms by (simp add: valid_datetime_def)
  show ?thesis
    using l v parse_isoformat_date_iso[OF assms] by (simp add: fromisoformat_def)
qed

subsection \<open>Week buckets\<close>

lemma year_split:
  fixes y :: int
  assumes "0 \<le> y"
  obtains a b c e where "y = 400 * a + 100 * b + 4 * c + e"
    "0 \<le> a" "0 \<le> b" "b \<le> 3" "0 \<le> c" "c \<le> 24" "0 \<le> e" "e \<le> 3"
proof -
  define a where "a = y div 400"
  define r where "r = y mod 400"
  define b where "b = r div 100"
  define r2 where "r2 = r mod 100"
  define c where "c = r2 div 4"
  define e where "e = r2 mod 4"
  have y: "y = 400 * a + r" and r: "0 \<le> r" "r < 400" by (simp_all add: a_def r_def)
  have a0: "0 \<le> a" using assms by (simp add: a_def pos_imp_zdiv_nonneg_iff)
  have re: "r = 100 * b + r2" and r2: "0 \<le> r2" "r2 < 100" by (simp_all add: b_def r2_def)
  have r2e: "r2 = 4 * c + e" and e: "0 \<le> e" "e < 4" by (simp_all add: c_def e_def)
  have b: "0 \<le> b" "b \<le> 3" using re r r2 by linarith+
  have c: "0 \<le> c" "c \<le> 24" using r2e r2 e by linarith+
  have full: "y = 400 * a + 100 * b + 4 * c + e" using y re r2e by linarith
  have e3: "e \<le> 3" using e by linarith
  show thesis by (rule that[OF full a0 b c e(1) e3])
qed

lemma year_days_le:
  fixes m d :: int
  assumes "1 \<le> m" "m \<le> 12" "1 \<le> d" "d \<le> days_in_month y m"
  shows "0 \<le> days_before_month y m"
    and "days_before_month y m + d \<le> 365 + (if is_leap y then 1 else 0)"
proof -
  from assms(1,2) have "m \<in> {1, 2, 3, 4, 5, 6, 7, 8, 9, 10, 11, 12}" by simp presburger
  then consider "m = 1" | "m = 2" | "m = 3" | "m = 4" | "m = 5" | "m = 6" | "m = 7"
    | "m = 8" | "m = 9" | "m = 10" | "m = 11" | "m = 12" by auto
  then have "0 \<le> days_before_month y m
    \<and> days_before_month y m + d \<le> 365 + (if is_leap y then 1 else 0)"
    using assms(4)
    by cases (auto simp: days_before_month_def days_in_month_def DAYS_BEFORE_MONTH_def
                DAYS_IN_MONTH_def split: if_splits)
  then show "0 \<le> days_before_month y m"
    and "days_before_month y m + d \<le> 365 + (if is_leap y then 1 else 0)" by simp_all
qed

lemma toordinal_bounds:
  assumes "valid_datetime t"
  shows "1 \<le> toordinal t" and "toordinal t \<le> MAXORDINAL"
proof -
  have v: "1 \<le> year t" "year t \<le> 9999" "1 \<le> month t" "month t \<le> 12" "1 \<le> day t"
    "day t \<le> days_in_month (year t) (month t)"
    using assms by (simp_all add: valid_datetime_def)
  have "0 \<le> year t - 1" using v by simp
  then obtain a b c e where ye: "year t - 1 = 400 * a + 100 * b + 4 * c + e"
    and r: "0 \<le> a" "0 \<le> b" "b \<le> 3" "0 \<le> c" "c \<le> 24" "0 \<le> e" "e \<le> 3"
    by (rule year_split)
  have Y: "year t = 400 * a + 100 * b + 4 * c + e + 1" using ye by linarith
  have dby: "days_before_year (year t) = 146097 * a + 36524 * b + 1461 * c + 365 * e"
    unfolding Y by (rule dby_decomp) (use r in simp_all)
  have lp: "is_leap (year t) = (e = 3 \<and> (c \<noteq> 24 \<or> b = 3))"
    unfolding Y by (rule leap_decomp) (use r in simp_all)
  note md = year_days_le[OF v(3,4,5,6)]
  have ord: "toordinal t = 146097 * a + 36524 * b + 1461 * c + 365 * e
               + (days_before_month (year t) (month t) + day t)"
    using dby by (simp add: toordinal_def ymd2ord_def)
  show "1 \<le> toordinal t" using ord md(1) v(5) r by linarith
  have le: "400 * a + 100 * b + 4 * c + e \<le> 9998" using Y v(2) by linarith
  have a24: "a \<le> 24" using le r by linarith
  have "146097 * a + 36524 * b + 1461 * c + 365 * e
               + (days_before_month (year t) (month t) + day t) \<le> 3652059"
  proof (cases "a \<le> 23")
    case True
    then show ?thesis using md(2) r by (simp split: if_splits; linarith)
  next
    case False
    then have a: "a = 24" using a24 by linarith
    show ?thesis
    proof (cases "b \<le> 2")
      case True
      then show ?thesis using a md(2) r by (simp split: if_splits; linarith)
    next
      case False
      then have b: "b = 3" using r by linarith
      show ?thesis
      proof (cases "c \<le> 23")
        case True
        then show ?thesis using a b md(2) r by (simp split: if_splits; linarith)
      next
        case False
        then have c: "c = 24" using r by linarith
        then have "e \<le> 2" using le a b by linarith
        then show ?thesis using a b c md(2) lp r by (simp split: if_splits; linarith)
      qed
    qed
  qed
  then show "toordinal t \<le> MAXORDINAL" using ord by (simp add: MAXORDINAL_def)
qed


lemma div_step:
  fixes y k :: int
  assumes "0 < k"
  shows "y div k = (y - 1) div k + (if y mod k = 0 then 1 else 0)"
proof -
  define q where "q = (y - 1) div k"
  define r where "r = (y - 1) mod k"
  have e: "y - 1 = k * q + r" by (simp add: q_def r_def)
  have r: "0 \<le> r" "r < k" using assms by (simp_all add: r_def)
  show ?thesis
  proof (cases "r = k - 1")
    case True
    have "y = k * (q + 1) + 0" using e True by (simp add: algebra_simps)
    from decompI[OF this] assms have "y mod k = 0" "y div k = q + 1" by simp_all
    then show ?thesis by (simp add: q_def)
  next
    case False
    have "y = k * q + (r + 1)" using e by simp
    from decompI[OF this] r False have "y mod k = r + 1" "y div k = q" by simp_all
    then show ?thesis using r by (simp add: q_def)
  qed
qed

lemma dby_Suc:
  "days_before_year (y + 1) = days_before_year y + 365 + (if is_leap y then 1 else 0)"
proof -
  define i4 :: int where "i4 = (if y mod 4 = 0 then 1 else 0)"
  define i100 :: int where "i100 = (if y mod 100 = 0 then 1 else 0)"
  define i400 :: int where "i400 = (if y mod 400 = 0 then 1 else 0)"
  define a4 where "a4 = (y - 1) div 4"
  define a100 where "a100 = (y - 1) div 100"
  define a400 where "a400 = (y - 1) div 400"
  define b4 where "b4 = y div 4"
  define b100 where "b100 = y div 100"
  define b400 where "b400 = y div 400"
  have m1: "y mod 100 = 0 \<Longrightarrow> y mod 4 = 0"
    using mod_mod_cancel[of 4 100 y] by simp
  have m2: "y mod 400 = 0 \<Longrightarrow> y mod 100 = 0"
    using mod_mod_cancel[of 100 400 y] by simp
  have s: "b4 = a4 + i4" "b100 = a100 + i100" "b400 = a400 + i400"
    unfolding b4_def a4_def i4_def b100_def a100_def i100_def b400_def a400_def i400_def
    by (rule div_step, simp)+
  have d1: "days_before_year (y + 1) = y * 365 + b4 - b100 + b400"
    by (simp add: days_before_year_def b4_def b100_def b400_def)
  have d0: "days_before_year y = (y - 1) * 365 + a4 - a100 + a400"
    by (simp add: days_before_year_def Let_def a4_def a100_def a400_def)
  have l: "(if is_leap y then 1 else 0) = i4 - i100 + i400"
  proof (cases "y mod 400 = 0")
    case True
    then have "y mod 100 = 0" by (rule m2)
    moreover from this have "y mod 4 = 0" by (rule m1)
    ultimately show ?thesis using True by (simp add: is_leap_def i4_def i100_def i400_def)
  next
    case False
    show ?thesis
    proof (cases "y mod 100 = 0")
      case True
      then have "y mod 4 = 0" by (rule m1)
      then show ?thesis
        using True False by (simp add: is_leap_def i4_def i100_def i400_def)
    next
      case n100: False
      show ?thesis
        using n100 False by (cases "y mod 4 = 0") (simp_all add: is_leap_def i4_def i100_def i400_def)
    qed
  qed
  show ?thesis unfolding d1 d0 l using s by (simp add: algebra_simps)
qed

lemma dby_mono: "y \<le> y' \<Longrightarrow> days_before_year y \<le> days_before_year y'"
proof (induction y' rule: int_ge_induct)
  case base
  then show ?case by simp
next
  case (step i)
  then show ?case using dby_Suc[of i] by (simp split: if_splits)
qed

lemma year_ord:
  assumes "valid_datetime t"
  shows "days_before_year (year t) < toordinal t"
    and "toordinal t \<le> days_before_year (year t + 1)"
proof -
  have v: "1 \<le> month t" "month t \<le> 12" "1 \<le> day t"
    "day t \<le> days_in_month (year t) (month t)"
    using assms by (simp_all add: valid_datetime_def)
  note md = year_days_le[OF v]
  show "days_before_year (year t) < toordinal t"
    using md(1) v(3) by (simp add: toordinal_def ymd2ord_def)
  show "toordinal t \<le> days_before_year (year t + 1)"
    using md(2) dby_Suc[of "year t"] by (simp add: toordinal_def ymd2ord_def split: if_splits)
qed

lemma week_start_year:
  assumes "valid_datetime t" "valid_datetime ws" "toordinal t < toordinal ws + 7"
    and "1001 \<le> year t"
  shows "1000 \<le> year ws"
proof (rule ccontr)
  assume "\<not> 1000 \<le> year ws"
  then have "year ws + 1 \<le> 1000" by simp
  from dby_mono[OF this] year_ord(2)[OF assms(2)]
  have a: "toordinal ws \<le> days_before_year 1000" by simp
  from dby_mono[OF assms(4)] year_ord(1)[OF assms(1)]
  have b: "days_before_year 1001 < toordinal t" by simp
  have c: "days_before_year 1001 = days_before_year 1000 + 365"
    using dby_Suc[of 1000] by (simp add: is_leap_def)
  show False using a b c assms(3) by linarith
qed

lemma mod7:
  fixes x :: int
  shows "(x + 6) mod 7 = (x - 1) mod 7" and "(x - (x + 6) mod 7 + 6) mod 7 = 0"
  by presburger+

lemma week_start_ok:
  assumes "valid_datetime t"
  shows "\<exists>ws. sub_days t (weekday t) = Inr ws \<and> valid_datetime ws
           \<and> toordinal ws = toordinal t - weekday t \<and> weekday ws = 0
           \<and> hour ws = hour t \<and> minute ws = minute t \<and> second ws = second t
           \<and> microsecond ws = microsecond t"
proof -
  define n where "n = toordinal t - weekday t"
  have ob: "1 \<le> toordinal t" "toordinal t \<le> MAXORDINAL"
    using toordinal_bounds[OF assms] by simp_all
  have w: "weekday t = (toordinal t - 1) mod 7"
    by (simp only: weekday_def mod7(1))
  have w0: "0 \<le> weekday t" by (simp add: weekday_def)
  have "(toordinal t - 1) mod 7 \<le> toordinal t - 1"
    using ob(1) by (intro zmod_le_nonneg_dividend) simp
  then have n1: "1 \<le> n" using w by (simp add: n_def)
  have nmax: "n \<le> MAXORDINAL" using ob(2) w0 by (simp add: n_def)
  from ord2ymd_ok[OF n1] obtain y m d where
    o: "ord2ymd n = (y, m, d)" and rt: "ymd2ord y m d = n"
    and v: "1 \<le> y" "1 \<le> m" "m \<le> 12" "1 \<le> d" "d \<le> days_in_month y m"
    and ymax: "n \<le> MAXORDINAL \<longrightarrow> y \<le> 9999"
    by blast
  define ws where "ws = t\<lparr>year := y, month := m, day := d\<rparr>"
  have s: "sub_days t (weekday t) = Inr ws"
    using n1 nmax o by (simp add: sub_days_def Let_def n_def[symmetric] ws_def)
  have vw: "valid_datetime ws"
    using assms v ymax nmax by (simp add: valid_datetime_def ws_def)
  have ow: "toordinal ws = n" using rt by (simp add: toordinal_def ws_def)
  have wd: "weekday ws = 0"
    unfolding weekday_def ow n_def by (rule mod7(2))
  show ?thesis
    using s vw ow wd by (intro exI[of _ ws]) (simp add: n_def ws_def)
qed



text \<open>
  C7, as the code has it. For every timestamp \<open>t\<close>, the Week bucket key is what
  \<open>%Y-%m-%d\<close> prints for a day \<open>ws\<close> that is a Monday (\<open>weekday ws = 0\<close>) and lies on or
  at most six days before the date of \<open>t\<close>; the subtraction never overflows. Whenever
  that Monday lies in the year 1000 or later, as it does for every \<open>t\<close> from the year
  1001 on, the key is the Monday's date written \<open>YYYY-MM-DD\<close>, and it reads back, as an
  ISO date, to exactly that Monday.
\<close>

theorem week_key_monday:
  assumes "valid_datetime t"
  shows "\<exists>ws. week_key t = Inr (strftime_Ymd ws) \<and> valid_datetime ws \<and> weekday ws = 0
           \<and> toordinal ws \<le> toordinal t \<and> toordinal t < toordinal ws + 7
           \<and> (1001 \<le> year t \<longrightarrow> 1000 \<le> year ws)
           \<and> (1000 \<le> year ws
                \<longrightarrow> week_key t = Inr (isoformat_date ws)
                  \<and> fromisoformat (isoformat_date ws)
                      = Some (ws\<lparr>hour := 0, minute := 0, second := 0, microsecond := 0\<rparr>))"
proof -
  from week_start_ok[OF assms] obtain ws where
    s: "sub_days t (weekday t) = Inr ws" and v: "valid_datetime ws"
    and o: "toordinal ws = toordinal t - weekday t" and wd: "weekday ws = 0"
    by blast
  have w: "0 \<le> weekday t" "weekday t < 7" by (simp_all add: weekday_def)
  have k: "week_key t = Inr (strftime_Ymd ws)" using s by (simp add: week_key_def)
  have i: "1000 \<le> year ws \<longrightarrow> week_key t = Inr (isoformat_date ws)"
    using k by (simp add: strftime_Ymd_iso)
  have lt: "toordinal t < toordinal ws + 7" using o w by simp
  have y: "1001 \<le> year t \<longrightarrow> 1000 \<le> year ws"
    using week_start_year[OF assms v lt] by simp
  show ?thesis
    using k v wd o w i y fromisoformat_isoformat_date[OF v] by (intro exI[of _ ws]) simp
qed

text \<open>2024-03-15 is a Friday (\<open>weekday = 4\<close>) and buckets under 2024-03-11.\<close>

theorem week_key_monday_witness:
  "valid_datetime (mk_datetime 2024 3 15 10 30 0)
   \<and> weekday (mk_datetime 2024 3 15 10 30 0) = 4
   \<and> week_key (mk_datetime 2024 3 15 10 30 0) = Inr ''2024-03-11''
   \<and> (\<exists>ws. week_key (mk_datetime 2024 3 15 10 30 0) = Inr (isoformat_date ws)
            \<and> valid_datetime ws \<and> weekday ws = 0 \<and> 1000 \<le> year ws
            \<and> fromisoformat ''2024-03-11''
                = Some (ws\<lparr>hour := 0, minute := 0, second := 0, microsecond := 0\<rparr>))"
proof -
  let ?t = "mk_datetime 2024 3 15 10 30 0"
  have v: "valid_datetime ?t" by code_simp
  have d: "weekday ?t = 4" by code_simp
  have k: "week_key ?t = Inr ''2024-03-11''" by code_simp
  have y: "1001 \<le> year ?t" by (simp add: mk_datetime_def)
  from week_key_monday[OF v] obtain ws where
    h: "valid_datetime ws" "weekday ws = 0" "1001 \<le> year ?t \<longrightarrow> 1000 \<le> year ws"
      "1000 \<le> year ws
       \<longrightarrow> week_key ?t = Inr (isoformat_date ws)
         \<and> fromisoformat (isoformat_date ws)
             = Some (ws\<lparr>hour := 0, minute := 0, second := 0, microsecond := 0\<rparr>)"
    by (elim exE conjE) (rule that)
  have y': "1000 \<le> year ws" using h(3) y by simp
  have i: "week_key ?t = Inr (isoformat_date ws)"
    "fromisoformat (isoformat_date ws)
       = Some (ws\<lparr>hour := 0, minute := 0, second := 0, microsecond := 0\<rparr>)"
    using h(4) y' by simp_all
  have e: "isoformat_date ws = ''2024-03-11''" using i(1) k by simp
  show ?thesis
    using v d k h(1,2) y' i e by (intro conjI exI[of _ ws]) simp_all
qed

text \<open>
  The first day of the year 999 is a Tuesday. Its week starts on 31 December 998, and the
  key it gets has a three-digit year: it is not that Monday's date written \<open>YYYY-MM-DD\<close>.
\<close>

theorem week_key_year_counterexample:
  "valid_datetime (mk_datetime 999 1 1 0 0 0)
   \<and> weekday (mk_datetime 999 1 1 0 0 0) = 1
   \<and> week_key (mk_datetime 999 1 1 0 0 0) = Inr ''998-12-31''
   \<and> isoformat_date (mk_datetime 998 12 31 0 0 0) = ''0998-12-31''"
  by code_simp

subsection \<open>Elapsed time\<close>

lemma month_inj:
  fixes m m' d d' :: int
  assumes "1 \<le> m" "m \<le> 12" "1 \<le> d" "d \<le> days_in_month y m"
    and "1 \<le> m'" "m' \<le> 12" "1 \<le> d'" "d' \<le> days_in_month y m'"
    and "days_before_month y m + d = days_before_month y m' + d'"
  shows "m = m' \<and> d = d'"
proof -
  have st: "days_before_month y (a + 1) = days_before_month y a + days_in_month y a"
    if "1 \<le> a" "a \<le> 11" for a :: int
  proof -
    from that have "a \<in> {1, 2, 3, 4, 5, 6, 7, 8, 9, 10, 11}" by simp presburger
    then show ?thesis
      by (auto simp: days_before_month_def days_in_month_def DAYS_BEFORE_MONTH_def
            DAYS_IN_MONTH_def)
  qed
  have pos: "0 \<le> days_in_month y a" if "1 \<le> a" "a \<le> 12" for a :: int
  proof -
    from that have "a \<in> {1, 2, 3, 4, 5, 6, 7, 8, 9, 10, 11, 12}" by simp presburger
    then show ?thesis by (auto simp: days_in_month_def DAYS_IN_MONTH_def)
  qed
  have mono: "c \<le> b \<Longrightarrow> 1 \<le> c \<Longrightarrow> b \<le> 12
              \<longrightarrow> days_before_month y c \<le> days_before_month y b" for c b :: int
  proof (induction b rule: int_ge_induct)
    case base
    then show ?case by simp
  next
    case (step i)
    show ?case
    proof
      assume i: "i + 1 \<le> 12"
      then have "days_before_month y c \<le> days_before_month y i" using step by simp
      moreover have "days_before_month y (i + 1) = days_before_month y i + days_in_month y i"
        using step i by (intro st) simp_all
      moreover have "0 \<le> days_in_month y i" using step i by (intro pos) simp_all
      ultimately show "days_before_month y c \<le> days_before_month y (i + 1)" by linarith
    qed
  qed
  have le: "days_before_month y a + days_in_month y a \<le> days_before_month y b"
    if "1 \<le> a" "a < b" "b \<le> 12" for a b :: int
  proof -
    have "days_before_month y (a + 1) = days_before_month y a + days_in_month y a"
      using that by (intro st) simp_all
    moreover have "days_before_month y (a + 1) \<le> days_before_month y b"
      using mono[of "a + 1" b] that by simp
    ultimately show ?thesis by linarith
  qed
  have "\<not> m < m'"
  proof
    assume "m < m'"
    from le[OF assms(1) this assms(6)] assms(3,4,7,9) show False by linarith
  qed
  moreover have "\<not> m' < m"
  proof
    assume "m' < m"
    from le[OF assms(5) this assms(2)] assms(3,7,8,9) show False by linarith
  qed
  ultimately have "m = m'" by linarith
  then show ?thesis using assms(9) by simp
qed

lemma toordinal_inj:
  assumes "valid_datetime a" "valid_datetime b" "toordinal a = toordinal b"
  shows "year a = year b \<and> month a = month b \<and> day a = day b"
proof -
  have "\<not> year a < year b"
  proof
    assume "year a < year b"
    then have "year a + 1 \<le> year b" by simp
    from dby_mono[OF this] year_ord(2)[OF assms(1)] year_ord(1)[OF assms(2)] assms(3)
    show False by linarith
  qed
  moreover have "\<not> year b < year a"
  proof
    assume "year b < year a"
    then have "year b + 1 \<le> year a" by simp
    from dby_mono[OF this] year_ord(2)[OF assms(2)] year_ord(1)[OF assms(1)] assms(3)
    show False by linarith
  qed
  ultimately have y: "year a = year b" by linarith
  have va: "1 \<le> month a" "month a \<le> 12" "1 \<le> day a"
    "day a \<le> days_in_month (year b) (month a)"
    using assms(1) y by (simp_all add: valid_datetime_def)
  have vb: "1 \<le> month b" "month b \<le> 12" "1 \<le> day b"
    "day b \<le> days_in_month (year b) (month b)"
    using assms(2) by (simp_all add: valid_datetime_def)
  have e: "days_before_month (year b) (month a) + day a
           = days_before_month (year b) (month b) + day b"
    using assms(3) y by (simp add: toordinal_def ymd2ord_def)
  from month_inj[OF va vb e] y show ?thesis by simp
qed

lemma ord2ymd_toordinal:
  assumes "valid_datetime t"
  shows "ord2ymd (toordinal t) = (year t, month t, day t)"
proof -
  note ob = toordinal_bounds[OF assms]
  from ord2ymd_ok[OF ob(1)] obtain y m d where
    o: "ord2ymd (toordinal t) = (y, m, d)" and rt: "ymd2ord y m d = toordinal t"
    and v: "1 \<le> y" "1 \<le> m" "m \<le> 12" "1 \<le> d" "d \<le> days_in_month y m"
    and ymax: "toordinal t \<le> MAXORDINAL \<longrightarrow> y \<le> 9999"
    by blast
  define u where "u = t\<lparr>year := y, month := m, day := d\<rparr>"
  have vu: "valid_datetime u"
    using assms v ymax ob(2) by (simp add: u_def valid_datetime_def)
  have "toordinal u = toordinal t" using rt by (simp add: u_def toordinal_def)
  from toordinal_inj[OF vu assms this] show ?thesis by (simp add: o u_def)
qed

lemma add_micros_complete:
  assumes "valid_datetime a" "valid_datetime t"
  shows "add_micros a (micros_between a t) = Inr t"
proof -
  define total where
    "total = toordinal a * 86400000000 + day_micros a + micros_between a t"
  define secs where "secs = (hour t * 60 + minute t) * 60 + second t"
  define rem where "rem = minute t * 60 + second t"
  have v: "0 \<le> hour t" "hour t \<le> 23" "0 \<le> minute t" "minute t \<le> 59"
    "0 \<le> second t" "second t \<le> 59" "0 \<le> microsecond t" "microsecond t \<le> 999999"
    using assms(2) by (simp_all add: valid_datetime_def)
  have t1: "total = 86400000000 * toordinal t + day_micros t"
    by (simp add: total_def micros_between_def algebra_simps)
  have dm: "day_micros t = 1000000 * secs + microsecond t"
    by (simp add: day_micros_def secs_def)
  have sb: "0 \<le> secs" "secs \<le> 86399" using v by (simp_all add: secs_def)
  have db: "0 \<le> day_micros t" "day_micros t < 86400000000" using dm sb v by linarith+
  note q1 = decompI[OF t1 db]
  have ub: "microsecond t < 1000000" using v by simp
  note q2 = decompI[OF dm v(7) ub]
  have s1: "secs = 3600 * hour t + rem" by (simp add: secs_def rem_def)
  have rb: "0 \<le> rem" "rem < 3600" using v by (simp_all add: rem_def)
  note q3 = decompI[OF s1 rb]
  have r1: "rem = 60 * minute t + second t" by (simp add: rem_def)
  have sb2: "second t < 60" using v by simp
  note q4 = decompI[OF r1 v(5) sb2]
  note ob = toordinal_bounds[OF assms(2)]
  have rec: "\<lparr>year = year t, month = month t, day = day t, hour = hour t, minute = minute t,
              second = second t, microsecond = microsecond t\<rparr> = t"
    by simp
  show ?thesis
    unfolding add_micros_def Let_def total_def[symmetric] q1 q2 q3 q4
    using ob ord2ymd_toordinal[OF assms(2)] by (simp add: rec)
qed

lemma add_micros_ok:
  assumes "add_micros T d = Inr t"
  shows "valid_datetime t" and "micros_between T t = d"
proof -
  define total where "total = toordinal T * 86400000000 + day_micros T + d"
  define days where "days = total div 86400000000"
  define rest where "rest = total mod 86400000000"
  define secs where "secs = rest div 1000000"
  define us where "us = rest mod 1000000"
  define hh where "hh = secs div 3600"
  define rem where "rem = secs mod 3600"
  define mm where "mm = rem div 60"
  define ss where "ss = rem mod 60"
  have e1: "total = 86400000000 * days + rest" and r1: "0 \<le> rest" "rest < 86400000000"
    by (simp_all add: days_def rest_def)
  have e2: "rest = 1000000 * secs + us" and r2: "0 \<le> us" "us < 1000000"
    by (simp_all add: secs_def us_def)
  have e3: "secs = 3600 * hh + rem" and r3: "0 \<le> rem" "rem < 3600"
    by (simp_all add: hh_def rem_def)
  have e4: "rem = 60 * mm + ss" and r4: "0 \<le> ss" "ss < 60"
    by (simp_all add: mm_def ss_def)
  have bs: "0 \<le> secs" "secs < 86400" using e2 r1 r2 by linarith+
  have bh: "0 \<le> hh" "hh \<le> 23" using e3 r3 bs by linarith+
  have bm: "0 \<le> mm" "mm \<le> 59" using e4 r3 r4 by linarith+
  note a = assms[unfolded add_micros_def Let_def, folded total_def, folded days_def rest_def,
      folded secs_def us_def, folded hh_def rem_def, folded mm_def ss_def]
  have dr: "0 < days" "days \<le> MAXORDINAL"
    using a by (simp_all split: if_splits)
  then have d1: "1 \<le> days" by simp
  from ord2ymd_ok[OF d1] obtain y m dd where
    o: "ord2ymd days = (y, m, dd)" and rt: "ymd2ord y m dd = days"
    and v: "1 \<le> y" "1 \<le> m" "m \<le> 12" "1 \<le> dd" "dd \<le> days_in_month y m"
    and ymax: "days \<le> MAXORDINAL \<longrightarrow> y \<le> 9999"
    by blast
  have t: "t = \<lparr>year = y, month = m, day = dd, hour = hh, minute = mm,
                 second = ss, microsecond = us\<rparr>"
    using a dr o by simp
  show "valid_datetime t"
    using v ymax dr bh bm r4 r2 by (simp add: t valid_datetime_def)
  have ot: "toordinal t = days" using rt by (simp add: t toordinal_def)
  have dm: "day_micros t = rest"
    using e2 e3 e4 by (simp add: t day_micros_def)
  show "micros_between T t = d"
    unfolding micros_between_def ot dm using e1 total_def by (simp add: algebra_simps)
qed

subsection \<open>The date window\<close>

lemma pick_length: "pick ds name is = Inr vs \<Longrightarrow> length vs = length is"
  by (induction "is" arbitrary: vs) (auto split: option.splits if_splits sum.splits)

lemma pick_missing:
  "map_of ds name = None \<Longrightarrow> pick ds name is = (if is = [] then Inr [] else Inl (KeyError name))"
  by (cases "is") simp_all

lemma filtered_indices_Ts:
  "\<exists>is. filtered_indices s e i (map Ts ts) = Inr is
     \<and> (\<forall>ds name col. map_of ds name = Some col \<longrightarrow> i + length ts \<le> length col \<longrightarrow>
          pick ds name is
            = Inr (map snd (filter (\<lambda>(t, v). dt_le s t \<and> dt_le t e) (zip ts (drop i col)))))"
proof (induction ts arbitrary: i)
  case Nil
  then show ?case by simp
next
  case (Cons t ts)
  from Cons.IH[of "Suc i"] obtain is' where
    f: "filtered_indices s e (Suc i) (map Ts ts) = Inr is'"
    and p: "\<And>ds name col. map_of ds name = Some col \<Longrightarrow> Suc i + length ts \<le> length col \<Longrightarrow>
          pick ds name is'
            = Inr (map snd (filter (\<lambda>(t, v). dt_le s t \<and> dt_le t e) (zip ts (drop (Suc i) col))))"
    by blast
  show ?case
  proof (intro exI conjI allI impI)
    show "filtered_indices s e i (map Ts (t # ts))
          = Inr (if dt_le s t \<and> dt_le t e then i # is' else is')"
      using f by simp
  next
    fix ds :: dataset and name :: string and col :: "cell list"
    assume m: "map_of ds name = Some col" and l: "i + length (t # ts) \<le> length col"
    then have il: "i < length col" and l': "Suc i + length ts \<le> length col" by simp_all
    have d: "drop i col = col ! i # drop (Suc i) col"
      using il by (simp add: Cons_nth_drop_Suc)
    show "pick ds name (if dt_le s t \<and> dt_le t e then i # is' else is')
          = Inr (map snd (filter (\<lambda>(t, v). dt_le s t \<and> dt_le t e) (zip (t # ts) (drop i col))))"
      using p[OF m l'] m il by (simp add: d)
  qed
qed

lemma zip_Ts_filter:
  "map snd (filter (\<lambda>(t, v). P t) (zip ts (map Ts ts))) = map Ts (filter P ts)"
  by (induction ts) auto

lemma fromisoformat_Nil: "fromisoformat [] = None"
  by (simp add: fromisoformat_def parse_isoformat_date_def)

lemma range_filter_window:
  assumes "map_of bar ''timestamp'' = Some (map Ts ts)"
    and "fromisoformat sd = Some s" and "fromisoformat ed = Some e0"
    and "map_of bar feature = Some fcol" and "length ts \<le> length fcol"
  shows "range_filter (Some bar) fd0 feature (Some sd) (Some ed)
         = Inr (AList.update feature
                  (map snd (filter (\<lambda>(t, v). dt_le s t
                       \<and> dt_le t (e0\<lparr>hour := 23, minute := 59, second := 59\<rparr>)) (zip ts fcol)))
                  (AList.update ''timestamp''
                     (map Ts (filter (\<lambda>t. dt_le s t
                       \<and> dt_le t (e0\<lparr>hour := 23, minute := 59, second := 59\<rparr>)) ts))
                     fd0))"
proof -
  let ?e = "e0\<lparr>hour := 23, minute := 59, second := 59\<rparr>"
  have ne: "sd \<noteq> []" "ed \<noteq> []" "bar \<noteq> []"
    using assms fromisoformat_Nil by auto
  from filtered_indices_Ts[of s ?e 0 ts] obtain "is" where
    f: "filtered_indices s ?e 0 (map Ts ts) = Inr is"
    and p: "\<And>ds name col. map_of ds name = Some col \<Longrightarrow> 0 + length ts \<le> length col \<Longrightarrow>
          pick ds name is
            = Inr (map snd (filter (\<lambda>(t, v). dt_le s t \<and> dt_le t ?e) (zip ts (drop 0 col))))"
    by blast
  have pt: "pick bar ''timestamp'' is = Inr (map Ts (filter (\<lambda>t. dt_le s t \<and> dt_le t ?e) ts))"
    using p[OF assms(1)] zip_Ts_filter[of "\<lambda>t. dt_le s t \<and> dt_le t ?e" ts] by simp
  have pf: "pick bar feature is
            = Inr (map snd (filter (\<lambda>(t, v). dt_le s t \<and> dt_le t ?e) (zip ts fcol)))"
    using p[OF assms(4)] assms(5) by simp
  show ?thesis
    using ne assms(1,2,3) f pt pf
    by (simp add: range_filter_def truthy_str_def truthy_data_def Let_def)
qed

lemma zip_fst_filter:
  "length ts \<le> length col \<Longrightarrow>
   map fst (filter (\<lambda>(t, v). P t) (zip ts col)) = filter P ts"
proof (induction ts arbitrary: col)
  case Nil
  then show ?case by simp
next
  case (Cons t ts)
  then show ?case by (cases col) auto
qed

lemma map_of_update_other:
  "c \<noteq> k \<Longrightarrow> map_of (AList.update k v al) c = map_of al c"
  by (simp add: update_conv')

lemma map_of_update_same: "map_of (AList.update k v al) k = Some v"
  by (simp add: update_conv')

lemma range_filter_timestamps:
  assumes "map_of bar ''timestamp'' = Some (map Ts ts)"
    and "map_of bar feature = Some fcol" and "length fcol = length ts"
    and "fromisoformat sd = Some s" and "fromisoformat ed = Some e0"
    and "e = e0\<lparr>hour := 23, minute := 59, second := 59\<rparr>"
  shows "\<exists>fd. range_filter (Some bar) bar feature (Some sd) (Some ed) = Inr fd
           \<and> map_of fd ''timestamp'' = Some (map Ts (filter (\<lambda>t. dt_le s t \<and> dt_le t e) ts))"
proof -
  let ?P = "\<lambda>t. dt_le s t \<and> dt_le t e"
  have l: "length ts \<le> length fcol" using assms(3) by simp
  note rf = range_filter_window[OF assms(1) assms(4) assms(5) assms(2) l, of bar,
      folded assms(6)]
  show ?thesis
  proof (cases "feature = ''timestamp''")
    case True
    then have "fcol = map Ts ts" using assms(1,2) by simp
    then have "map snd (filter (\<lambda>(t, v). ?P t) (zip ts fcol)) = map Ts (filter ?P ts)"
      using zip_Ts_filter[of ?P ts] by simp
    then show ?thesis using rf True by (simp add: map_of_update_same)
  next
    case False
    then have "''timestamp'' \<noteq> feature" by simp
    then show ?thesis using rf by (simp add: map_of_update_other map_of_update_same)
  qed
qed


text \<open>
  C2. When both dates are given as calendar dates \<open>YYYY-MM-DD\<close> (here the ISO strings
  of the dates of \<open>a\<close> and \<open>b\<close>), the window runs from the start date
  at 00:00:00 to the end date at 23:59:59, and the timestamp column of the result holds
  exactly the timestamps \<open>t\<close> with \<open>start \<le> t \<le> end\<close>, in their original order.
\<close>

theorem range_filter_inclusive:
  assumes "valid_datetime a" and "valid_datetime b"
    and "map_of bar ''timestamp'' = Some (map Ts ts)"
    and "map_of bar feature = Some fcol" and "length fcol = length ts"
  shows "\<exists>fd. range_filter (Some bar) bar feature
                  (Some (isoformat_date a)) (Some (isoformat_date b))
                = Inr fd
           \<and> map_of fd ''timestamp''
               = Some (map Ts (filter
                    (\<lambda>t. dt_le (mk_datetime (year a) (month a) (day a) 0 0 0) t
                       \<and> dt_le t (mk_datetime (year b) (month b) (day b) 23 59 59))
                    ts))"
proof -
  have es: "a\<lparr>hour := 0, minute := 0, second := 0, microsecond := 0\<rparr>
            = mk_datetime (year a) (month a) (day a) 0 0 0"
    by (cases a) (simp add: mk_datetime_def)
  have ee: "mk_datetime (year b) (month b) (day b) 23 59 59
            = (b\<lparr>hour := 0, minute := 0, second := 0, microsecond := 0\<rparr>)
                \<lparr>hour := 23, minute := 59, second := 59\<rparr>"
    by (cases b) (simp add: mk_datetime_def)
  show ?thesis
    by (rule range_filter_timestamps[OF assms(3,4,5)
          fromisoformat_isoformat_date[OF assms(1), unfolded es]
          fromisoformat_isoformat_date[OF assms(2)] ee])
qed


text \<open>
  Rows at 2024-01-01T00:00:00 and 2024-01-03T23:59:59 are both kept by the window
  2024-01-01 to 2024-01-03; the second is dropped when the window ends on 2024-01-02.
\<close>

theorem range_filter_inclusive_witness:
  "(\<exists>fd. range_filter (Some ex_bar) ex_bar ''status'' (Some ''2024-01-01'') (Some ''2024-01-03'')
            = Inr fd
         \<and> map_of fd ''timestamp''
             = Some [Ts (mk_datetime 2024 1 1 0 0 0), Ts (mk_datetime 2024 1 3 23 59 59)])
   \<and> (\<exists>fd. range_filter (Some ex_bar) ex_bar ''status'' (Some ''2024-01-01'') (Some ''2024-01-02'')
            = Inr fd
         \<and> map_of fd ''timestamp'' = Some [Ts (mk_datetime 2024 1 1 0 0 0)])"
proof -
  have v: "valid_datetime (mk_datetime 2024 1 1 0 0 0)" "valid_datetime (mk_datetime 2024 1 2 0 0 0)"
    "valid_datetime (mk_datetime 2024 1 3 0 0 0)" by code_simp+
  have s: "isoformat_date (mk_datetime 2024 1 1 0 0 0) = ''2024-01-01''"
    "isoformat_date (mk_datetime 2024 1 2 0 0 0) = ''2024-01-02''"
    "isoformat_date (mk_datetime 2024 1 3 0 0 0) = ''2024-01-03''" by code_simp+
  have t: "map_of ex_bar ''timestamp''
           = Some (map Ts [mk_datetime 2024 1 1 0 0 0, mk_datetime 2024 1 3 23 59 59,
                           mk_datetime 2024 3 15 10 30 0])"
    by (simp add: ex_bar_def)
  have f: "map_of ex_bar ''status'' = Some [Str ''active'', Str ''failed'', Str ''active'']"
    by (simp add: ex_bar_def)
  have l: "length [Str ''active'', Str ''failed'', Str ''active'']
           = length [mk_datetime 2024 1 1 0 0 0, mk_datetime 2024 1 3 23 59 59,
                     mk_datetime 2024 3 15 10 30 0]" by simp
  from range_filter_inclusive[OF v(1) v(3) t f l] range_filter_inclusive[OF v(1) v(2) t f l]
  show ?thesis
    unfolding s by (simp add: dt_le_def dt_fields_def mk_datetime_def)
qed


text \<open>
  C8, as the code has it. The dataset the window produces has its timestamp column and the
  analysed feature column made of exactly the retained rows \<open>kept\<close>, in their original
  relative order, so these two columns are row-aligned and of equal length; every other
  column is carried over unfiltered, as it is in the input.
\<close>

theorem range_filter_aligned:
  assumes "map_of bar ''timestamp'' = Some (map Ts ts)"
    and "map_of bar feature = Some fcol" and "length fcol = length ts"
    and "fromisoformat sd = Some s" and "fromisoformat ed = Some e0"
  shows "\<exists>fd kept. range_filter (Some bar) bar feature (Some sd) (Some ed) = Inr fd
           \<and> kept = filter (\<lambda>(t, v). dt_le s t
                       \<and> dt_le t (e0\<lparr>hour := 23, minute := 59, second := 59\<rparr>)) (zip ts fcol)
           \<and> map_of fd ''timestamp'' = Some (map (Ts \<circ> fst) kept)
           \<and> map_of fd feature = Some (map snd kept)
           \<and> (\<forall>c. c \<noteq> ''timestamp'' \<and> c \<noteq> feature \<longrightarrow> map_of fd c = map_of bar c)"
proof -
  let ?P = "\<lambda>t. dt_le s t \<and> dt_le t (e0\<lparr>hour := 23, minute := 59, second := 59\<rparr>)"
  let ?kept = "filter (\<lambda>(t, v). ?P t) (zip ts fcol)"
  have l: "length ts \<le> length fcol" using assms(3) by simp
  note rf = range_filter_window[OF assms(1) assms(4) assms(5) assms(2) l, of bar]
  have k1: "map (Ts \<circ> fst) ?kept = map Ts (filter ?P ts)"
    using zip_fst_filter[OF l, of ?P] by (simp flip: map_map)
  have ts: "map_of (AList.update feature (map snd ?kept)
               (AList.update ''timestamp'' (map Ts (filter ?P ts)) bar)) ''timestamp''
            = Some (map (Ts \<circ> fst) ?kept)"
  proof (cases "feature = ''timestamp''")
    case True
    then have "fcol = map Ts ts" using assms(1,2) by simp
    then have "map snd ?kept = map Ts (filter ?P ts)"
      using zip_Ts_filter[of ?P ts] by simp
    then show ?thesis using True k1 by (simp add: map_of_update_same)
  next
    case False
    then have "''timestamp'' \<noteq> feature" by simp
    then show ?thesis using k1 by (simp add: map_of_update_other map_of_update_same)
  qed
  show ?thesis
    using rf ts
    by (intro exI[of _ "AList.update feature (map snd ?kept)
               (AList.update ''timestamp'' (map Ts (filter ?P ts)) bar)"] exI[of _ ?kept])
       (simp add: map_of_update_other map_of_update_same)
qed

theorem range_filter_aligned_witness:
  "\<exists>fd. range_filter (Some ex_bar) ex_bar ''status'' (Some ''2024-01-01'') (Some ''2024-01-03'')
           = Inr fd
        \<and> map_of fd ''timestamp''
            = Some [Ts (mk_datetime 2024 1 1 0 0 0), Ts (mk_datetime 2024 1 3 23 59 59)]
        \<and> map_of fd ''status'' = Some [Str ''active'', Str ''failed'']
        \<and> map_of fd ''user'' = map_of ex_bar ''user''"
proof -
  have p: "fromisoformat ''2024-01-01'' = Some (mk_datetime 2024 1 1 0 0 0)"
    "fromisoformat ''2024-01-03'' = Some (mk_datetime 2024 1 3 0 0 0)" by code_simp+
  have t: "map_of ex_bar ''timestamp''
           = Some (map Ts [mk_datetime 2024 1 1 0 0 0, mk_datetime 2024 1 3 23 59 59,
                           mk_datetime 2024 3 15 10 30 0])"
    by (simp add: ex_bar_def)
  have f: "map_of ex_bar ''status'' = Some [Str ''active'', Str ''failed'', Str ''active'']"
    by (simp add: ex_bar_def)
  have l: "length [Str ''active'', Str ''failed'', Str ''active'']
           = length [mk_datetime 2024 1 1 0 0 0, mk_datetime 2024 1 3 23 59 59,
                     mk_datetime 2024 3 15 10 30 0]" by simp
  from range_filter_aligned[OF t f l p] obtain fd kept where
    h: "range_filter (Some ex_bar) ex_bar ''status'' (Some ''2024-01-01'') (Some ''2024-01-03'')
           = Inr fd
        \<and> kept = filter (\<lambda>(t, v). dt_le (mk_datetime 2024 1 1 0 0 0) t
                       \<and> dt_le t ((mk_datetime 2024 1 3 0 0 0)\<lparr>hour := 23, minute := 59, second := 59\<rparr>))
                    (zip [mk_datetime 2024 1 1 0 0 0, mk_datetime 2024 1 3 23 59 59,
                           mk_datetime 2024 3 15 10 30 0]
                         [Str ''active'', Str ''failed'', Str ''active''])
        \<and> map_of fd ''timestamp'' = Some (map (Ts \<circ> fst) kept)
        \<and> map_of fd ''status'' = Some (map snd kept)
        \<and> (\<forall>c. c \<noteq> ''timestamp'' \<and> c \<noteq> ''status'' \<longrightarrow> map_of fd c = map_of ex_bar c)"
    by (elim exE) (rule that)
  have k: "kept = [(mk_datetime 2024 1 1 0 0 0, Str ''active''),
                   (mk_datetime 2024 1 3 23 59 59, Str ''failed'')]"
    using h by (simp add: dt_le_def dt_fields_def mk_datetime_def)
  have u: "map_of fd ''user'' = map_of ex_bar ''user''"
    using h by simp
  show ?thesis
    using h k u by (intro exI[of _ fd]) simp
qed


text \<open>
  The columns of the output need not all have the same length: with three columns and a
  window that keeps one of three rows, the lengths are 1, 1 and 3.
\<close>

theorem range_filter_columns_counterexample:
  "range_filter (Some ex_bar) ex_bar ''status'' (Some ''2024-01-01'') (Some ''2024-01-02'')
     = Inr [(''timestamp'', [Ts (mk_datetime 2024 1 1 0 0 0)]),
            (''status'', [Str ''active'']),
            (''user'', [Str ''alice'', Str ''bob'', Str ''eve''])]
   \<and> map (length \<circ> snd)
        [(''timestamp'', [Ts (mk_datetime 2024 1 1 0 0 0)]),
         (''status'', [Str ''active'']),
         (''user'', [Str ''alice'', Str ''bob'', Str ''eve''])] = [1, 1, 3]"
  by code_simp

subsection \<open>Grouping and counting\<close>

lemma bump_sum: "sum_list (map snd (bump cs v)) = sum_list (map snd cs) + 1"
proof -
  have "sum_list (map snd (AList.update v ((case map_of cs v of None \<Rightarrow> 0 | Some c \<Rightarrow> c) + 1) cs))
        = sum_list (map snd cs) + 1"
    by (induction cs) auto
  then show ?thesis by (simp add: bump_def)
qed

lemma update_set:
  "p \<in> set (AList.update k v al) \<Longrightarrow> p \<in> set al \<or> p = (k, v)"
  by (induction al) (auto split: if_splits)

lemma bump_ok:
  assumes "distinct (map fst cs)" and "\<And>v c. (v, c) \<in> set cs \<Longrightarrow> 1 \<le> c"
  shows "distinct (map fst (bump cs v))" and "\<And>v' c'. (v', c') \<in> set (bump cs v) \<Longrightarrow> 1 \<le> c'"
proof -
  show "distinct (map fst (bump cs v))"
    using assms(1) by (simp add: bump_def distinct_update)
  have c0: "0 \<le> (case map_of cs v of None \<Rightarrow> 0 | Some c \<Rightarrow> c)"
  proof (cases "map_of cs v")
    case None
    then show ?thesis by simp
  next
    case (Some c)
    then have "(v, c) \<in> set cs" by (rule map_of_SomeD)
    then have "1 \<le> c" by (rule assms(2))
    then show ?thesis using Some by simp
  qed
  fix v' c'
  assume "(v', c') \<in> set (bump cs v)"
  then have "(v', c') \<in> set cs \<or> (v', c') = (v, (case map_of cs v of None \<Rightarrow> 0 | Some c \<Rightarrow> c) + 1)"
    unfolding bump_def by (rule update_set)
  then show "1 \<le> c'"
  proof
    assume "(v', c') \<in> set cs"
    then show ?thesis by (rule assms(2))
  next
    assume "(v', c') = (v, (case map_of cs v of None \<Rightarrow> 0 | Some c \<Rightarrow> c) + 1)"
    then show ?thesis using c0 by simp
  qed
qed

lemma emit_Nil [simp]: "emit [] = []"
  by (simp add: emit_def)

lemma emit_Cons:
  "emit ((key, cnts) # bins)
   = map (\<lambda>(v, c). \<lparr>date = key, value = v, count = c\<rparr>) cnts @ emit bins"
  by (simp add: emit_def)

lemma bucket_sum_one:
  "sum_list (map count (filter (\<lambda>r. date r = k)
      (map (\<lambda>(v, c). \<lparr>date = key, value = v, count = c\<rparr>) cnts)))
   = (if key = k then sum_list (map snd cnts) else 0)"
  by (induction cnts) auto

lemma bucket_sum_update:
  "sum_list (map count (filter (\<lambda>r. date r = k)
      (emit (AList.update key
               (bump (case map_of bins key of None \<Rightarrow> [] | Some cnts \<Rightarrow> cnts) v) bins))))
   = sum_list (map count (filter (\<lambda>r. date r = k) (emit bins))) + (if key = k then 1 else 0)"
proof (induction bins)
  case Nil
  then show ?case by (simp add: emit_Cons bucket_sum_one bump_sum)
next
  case (Cons p bins)
  obtain k' c' where p: "p = (k', c')" by (cases p)
  show ?case
  proof (cases "k' = key")
    case True
    then show ?thesis using p by (simp add: emit_Cons bucket_sum_one bump_sum)
  next
    case False
    then show ?thesis using p Cons.IH by (simp add: emit_Cons bucket_sum_one)
  qed
qed


lemma emit_date:
  "r \<in> set (emit bins) \<Longrightarrow> date r \<in> fst ` set bins"
  by (induction bins) (auto simp: emit_Cons)

lemma emit_count:
  "r \<in> set (emit bins) \<Longrightarrow> \<exists>cnts. (date r, cnts) \<in> set bins \<and> (value r, count r) \<in> set cnts"
proof (induction bins)
  case Nil
  then show ?case by simp
next
  case (Cons p bins)
  obtain k cnts where p: "p = (k, cnts)" by (cases p)
  from Cons.prems have "r \<in> set (map (\<lambda>(v, c). \<lparr>date = k, value = v, count = c\<rparr>) cnts)
      \<or> r \<in> set (emit bins)"
    by (simp add: p emit_Cons)
  then show ?case
  proof
    assume "r \<in> set (map (\<lambda>(v, c). \<lparr>date = k, value = v, count = c\<rparr>) cnts)"
    then have "date r = k" "(value r, count r) \<in> set cnts" by auto
    then show ?thesis by (intro exI[of _ cnts]) (simp add: p)
  next
    assume "r \<in> set (emit bins)"
    from Cons.IH[OF this] obtain cnts' where
      "(date r, cnts') \<in> set bins" "(value r, count r) \<in> set cnts'" by blast
    then show ?thesis by (intro exI[of _ cnts']) simp
  qed
qed

lemma emit_distinct:
  assumes "distinct (map fst bins)"
    and "\<And>k cnts. (k, cnts) \<in> set bins \<Longrightarrow> distinct (map fst cnts)"
  shows "distinct (map (\<lambda>r. (date r, value r)) (emit bins))"
  using assms
proof (induction bins)
  case Nil
  then show ?case by simp
next
  case (Cons p bins)
  obtain k cnts where p: "p = (k, cnts)" by (cases p)
  have d1: "distinct (map (\<lambda>r. (date r, value r))
              (map (\<lambda>(v, c). \<lparr>date = k, value = v, count = c\<rparr>) cnts))"
  proof -
    have "map (\<lambda>r. (date r, value r)) (map (\<lambda>(v, c). \<lparr>date = k, value = v, count = c\<rparr>) cnts)
          = map (\<lambda>v. (k, v)) (map fst cnts)"
      by (induction cnts) auto
    moreover have "distinct (map fst cnts)" by (rule Cons.prems(2)[of k]) (simp add: p)
    ultimately show ?thesis by (simp add: distinct_map inj_on_def)
  qed
  have d2: "distinct (map (\<lambda>r. (date r, value r)) (emit bins))"
  proof (rule Cons.IH)
    show "distinct (map fst bins)" using Cons.prems(1) by simp
    fix k' cnts'
    assume "(k', cnts') \<in> set bins"
    then have "(k', cnts') \<in> set (p # bins)" by simp
    then show "distinct (map fst cnts')" by (rule Cons.prems(2))
  qed
  have d3: "\<And>r r'. r \<in> set (map (\<lambda>(v, c). \<lparr>date = k, value = v, count = c\<rparr>) cnts)
              \<Longrightarrow> r' \<in> set (emit bins) \<Longrightarrow> date r \<noteq> date r'"
  proof -
    fix r r'
    assume "r \<in> set (map (\<lambda>(v, c). \<lparr>date = k, value = v, count = c\<rparr>) cnts)"
      and r': "r' \<in> set (emit bins)"
    then have "date r = k" by auto
    moreover have "date r' \<in> fst ` set bins" using r' by (rule emit_date)
    moreover have "k \<notin> fst ` set bins" using Cons.prems(1) p by simp
    ultimately show "date r \<noteq> date r'" by metis
  qed
  show ?case
    unfolding p emit_Cons map_append distinct_append
    using d1 d2 d3 by (auto simp del: map_map)
qed


lemma bins_step_ok:
  assumes "distinct (map fst bins)"
    and "\<And>k cnts. (k, cnts) \<in> set bins \<Longrightarrow> distinct (map fst cnts)"
    and "\<And>k cnts v c. (k, cnts) \<in> set bins \<Longrightarrow> (v, c) \<in> set cnts \<Longrightarrow> 1 \<le> c"
    and "bins' = AList.update key
            (bump (case map_of bins key of None \<Rightarrow> [] | Some cnts \<Rightarrow> cnts) v) bins"
  shows "distinct (map fst bins')"
    and "\<And>k cnts. (k, cnts) \<in> set bins' \<Longrightarrow> distinct (map fst cnts)"
    and "\<And>k cnts v c. (k, cnts) \<in> set bins' \<Longrightarrow> (v, c) \<in> set cnts \<Longrightarrow> 1 \<le> c"
proof -
  define cs0 where "cs0 = (case map_of bins key of None \<Rightarrow> [] | Some cnts \<Rightarrow> cnts)"
  have b': "bins' = AList.update key (bump cs0 v) bins" by (simp add: assms(4) cs0_def)
  show "distinct (map fst bins')"
    unfolding b' using assms(1) by (rule distinct_update)
  have c0: "cs0 = [] \<or> (key, cs0) \<in> set bins"
  proof (cases "map_of bins key")
    case None
    then show ?thesis by (simp add: cs0_def)
  next
    case (Some cnts)
    then have "(key, cnts) \<in> set bins" by (rule map_of_SomeD)
    then show ?thesis using Some by (simp add: cs0_def)
  qed
  have d0: "distinct (map fst cs0)"
  proof (rule disjE[OF c0])
    assume "cs0 = []"
    then show ?thesis by simp
  next
    assume "(key, cs0) \<in> set bins"
    then show ?thesis by (rule assms(2))
  qed
  have p0: "\<And>v c. (v, c) \<in> set cs0 \<Longrightarrow> 1 \<le> c"
  proof -
    fix v c
    assume m: "(v, c) \<in> set cs0"
    then have "cs0 \<noteq> []" by auto
    then have "(key, cs0) \<in> set bins" using c0 by simp
    then show "1 \<le> c" using m by (rule assms(3))
  qed
  have b: "distinct (map fst (bump cs0 v))"
    "\<And>v' c'. (v', c') \<in> set (bump cs0 v) \<Longrightarrow> 1 \<le> c'"
    using bump_ok[where cs = cs0 and v = v, OF d0 p0] by simp_all
  {
    fix k cnts
    assume "(k, cnts) \<in> set bins'"
    then have "(k, cnts) \<in> set bins \<or> (k, cnts) = (key, bump cs0 v)"
      unfolding b' by (rule update_set)
  }
  note mem = this
  {
    fix k cnts
    assume "(k, cnts) \<in> set bins'"
    from mem[OF this] show "distinct (map fst cnts)"
    proof
      assume "(k, cnts) \<in> set bins"
      then show ?thesis by (rule assms(2))
    next
      assume "(k, cnts) = (key, bump cs0 v)"
      then show ?thesis using b(1) by simp
    qed
  }
  {
    fix k cnts v' c'
    assume "(k, cnts) \<in> set bins'" and m: "(v', c') \<in> set cnts"
    from mem[OF this(1)] show "1 \<le> c'"
    proof
      assume "(k, cnts) \<in> set bins"
      then show ?thesis using m by (rule assms(3))
    next
      assume "(k, cnts) = (key, bump cs0 v)"
      then have "(v', c') \<in> set (bump cs0 v)" using m by simp
      then show ?thesis by (rule b(2))
    qed
  }
qed

lemma bins_step_eq:
  "(let bins1 = (if map_of bins key = None then AList.update key [] bins else bins)
    in AList.update key
         (bump (case map_of bins1 key of Some cnts \<Rightarrow> cnts | None \<Rightarrow> []) v) bins1)
   = AList.update key (bump (case map_of bins key of None \<Rightarrow> [] | Some cnts \<Rightarrow> cnts) v) bins"
  by (cases "map_of bins key") (simp_all add: update_conv' Let_def)

lemma bin_rows_Ts:
  "bin_rows key_of fd feature i (Ts t # cs) bins =
     (case key_of t of
        Inl e \<Rightarrow> Inl e
      | Inr key \<Rightarrow>
          (case map_of fd feature of
             None \<Rightarrow> Inl (KeyError feature)
           | Some col \<Rightarrow>
               if i < length col
               then bin_rows key_of fd feature (Suc i) cs
                      (AList.update key
                        (bump (case map_of bins key of None \<Rightarrow> [] | Some cnts \<Rightarrow> cnts) (col ! i))
                        bins)
               else Inl IndexError))"
  by (simp only: bin_rows.simps cell.case Let_def bins_step_eq[unfolded Let_def])


lemma bin_rows_correct:
  assumes "bin_rows key_of fd feature i cells bins = Inr bins'"
    and "distinct (map fst bins)"
    and "\<And>k cnts. (k, cnts) \<in> set bins \<Longrightarrow> distinct (map fst cnts)"
    and "\<And>k cnts v c. (k, cnts) \<in> set bins \<Longrightarrow> (v, c) \<in> set cnts \<Longrightarrow> 1 \<le> c"
  shows "distinct (map fst bins')
       \<and> (\<forall>k cnts. (k, cnts) \<in> set bins' \<longrightarrow> distinct (map fst cnts))
       \<and> (\<forall>k cnts v c. (k, cnts) \<in> set bins' \<longrightarrow> (v, c) \<in> set cnts \<longrightarrow> 1 \<le> c)
       \<and> (\<forall>k. sum_list (map count (filter (\<lambda>r. date r = k) (emit bins')))
              = sum_list (map count (filter (\<lambda>r. date r = k) (emit bins)))
                + int (length (filter (\<lambda>c. \<exists>t. c = Ts t \<and> key_of t = Inr k) cells)))"
  using assms
proof (induction cells arbitrary: i bins)
  case Nil
  from Nil(1) have e: "bins' = bins" by simp
  show ?case
    unfolding e using Nil(2) Nil(3) Nil(4) by (intro conjI allI impI) simp_all
next
  case (Cons c cells)
  from Cons.prems(1) obtain t where c: "c = Ts t"
    by (cases c) simp_all
  from Cons.prems(1) c obtain key where key: "key_of t = Inr key"
    by (cases "key_of t") (simp_all add: bin_rows_Ts del: bin_rows.simps)
  from Cons.prems(1) c key obtain col where col: "map_of fd feature = Some col"
    by (cases "map_of fd feature") (simp_all add: bin_rows_Ts del: bin_rows.simps)
  define b where "b = AList.update key
              (bump (case map_of bins key of None \<Rightarrow> [] | Some cnts \<Rightarrow> cnts) (col ! i)) bins"
  from Cons.prems(1) c key col have il: "i < length col"
    and rec: "bin_rows key_of fd feature (Suc i) cells b = Inr bins'"
    by (simp_all add: bin_rows_Ts b_def del: bin_rows.simps split: if_splits)
  note ok = bins_step_ok[OF Cons.prems(2,3,4) b_def]
  note ih = Cons.IH[OF rec ok]
  have cnt: "\<And>k. int (length (filter (\<lambda>c. \<exists>t. c = Ts t \<and> key_of t = Inr k) (c # cells)))
       = (if key = k then 1 else 0)
         + int (length (filter (\<lambda>c. \<exists>t. c = Ts t \<and> key_of t = Inr k) cells))"
    using c key by simp
  show ?case
  proof (intro conjI)
    show "distinct (map fst bins')" by (rule ih[THEN conjunct1])
    show "\<forall>k cnts. (k, cnts) \<in> set bins' \<longrightarrow> distinct (map fst cnts)"
      by (rule ih[THEN conjunct2, THEN conjunct1])
    show "\<forall>k cnts v c. (k, cnts) \<in> set bins' \<longrightarrow> (v, c) \<in> set cnts \<longrightarrow> 1 \<le> c"
      by (rule ih[THEN conjunct2, THEN conjunct2, THEN conjunct1])
    show "\<forall>k. sum_list (map count (filter (\<lambda>r. date r = k) (emit bins')))
              = sum_list (map count (filter (\<lambda>r. date r = k) (emit bins)))
                + int (length (filter (\<lambda>c. \<exists>t. c = Ts t \<and> key_of t = Inr k) (c # cells)))"
    proof
      fix k
      have s: "sum_list (map count (filter (\<lambda>r. date r = k) (emit bins')))
              = sum_list (map count (filter (\<lambda>r. date r = k) (emit b)))
                + int (length (filter (\<lambda>c. \<exists>t. c = Ts t \<and> key_of t = Inr k) cells))"
        by (rule ih[THEN conjunct2, THEN conjunct2, THEN conjunct2, THEN spec])
      show "sum_list (map count (filter (\<lambda>r. date r = k) (emit bins')))
              = sum_list (map count (filter (\<lambda>r. date r = k) (emit bins)))
                + int (length (filter (\<lambda>c. \<exists>t. c = Ts t \<and> key_of t = Inr k) (c # cells)))"
        unfolding cnt s b_def bucket_sum_update by simp
    qed
  qed
qed


lemma bin_rows_total:
  assumes "map_of fd feature = Some col" and "i + length ts \<le> length col"
    and "\<forall>t\<in>set ts. \<exists>k. key_of t = Inr k"
  shows "\<exists>bins'. bin_rows key_of fd feature i (map Ts ts) bins = Inr bins'"
  using assms(2,3)
proof (induction ts arbitrary: i bins)
  case Nil
  then show ?case by simp
next
  case (Cons t ts)
  from Cons.prems(2) obtain key where key: "key_of t = Inr key" by auto
  have il: "i < length col" and l: "Suc i + length ts \<le> length col"
    using Cons.prems(1) by simp_all
  have r: "\<forall>t\<in>set ts. \<exists>k. key_of t = Inr k" using Cons.prems(2) by simp
  show ?case
    using Cons.IH[OF l r] key assms(1) il
    by (simp add: bin_rows_Ts del: bin_rows.simps)
qed

lemma filter_Ts_length:
  "length (filter (\<lambda>c. \<exists>t. c = Ts t \<and> P t) (map Ts ts)) = length (filter P ts)"
  by (induction ts) auto

lemma group_count_complete:
  assumes "map_of fd ''timestamp'' = Some (map Ts ts)"
    and "map_of fd feature = Some fcol" and "length fcol = length ts"
    and "\<forall>t\<in>set ts. \<exists>k. key_of t = Inr k"
  shows "\<exists>recs. group_count key_of fd feature = Inr recs
           \<and> (\<forall>k. sum_list (map count (filter (\<lambda>r. date r = k) recs))
                  = int (length (filter (\<lambda>t. key_of t = Inr k) ts)))
           \<and> (\<forall>r\<in>set recs. 1 \<le> count r)
           \<and> distinct (map (\<lambda>r. (date r, value r)) recs)"
proof -
  have l: "0 + length ts \<le> length fcol" using assms(3) by simp
  from bin_rows_total[OF assms(2) l assms(4), of "[]"] obtain bins where
    b: "bin_rows key_of fd feature 0 (map Ts ts) [] = Inr bins" by blast
  have inv: "distinct (map fst bins)
       \<and> (\<forall>k cnts. (k, cnts) \<in> set bins \<longrightarrow> distinct (map fst cnts))
       \<and> (\<forall>k cnts v c. (k, cnts) \<in> set bins \<longrightarrow> (v, c) \<in> set cnts \<longrightarrow> 1 \<le> c)
       \<and> (\<forall>k. sum_list (map count (filter (\<lambda>r. date r = k) (emit bins)))
              = sum_list (map count (filter (\<lambda>r. date r = k) (emit [])))
                + int (length (filter (\<lambda>c. \<exists>t. c = Ts t \<and> key_of t = Inr k) (map Ts ts))))"
    by (rule bin_rows_correct[OF b]) simp_all
  have g: "group_count key_of fd feature = Inr (emit bins)"
    using assms(1) b by (simp add: group_count_def)
  have s: "\<forall>k. sum_list (map count (filter (\<lambda>r. date r = k) (emit bins)))
                  = int (length (filter (\<lambda>t. key_of t = Inr k) ts))"
    using inv filter_Ts_length[of "\<lambda>t. key_of t = Inr _" ts] by simp
  have c: "\<forall>r\<in>set (emit bins). 1 \<le> count r"
  proof
    fix r
    assume "r \<in> set (emit bins)"
    from emit_count[OF this] obtain cnts where
      "(date r, cnts) \<in> set bins" "(value r, count r) \<in> set cnts" by blast
    then show "1 \<le> count r"
      using inv[THEN conjunct2, THEN conjunct2, THEN conjunct1] by blast
  qed
  have d: "distinct (map (\<lambda>r. (date r, value r)) (emit bins))"
  proof (rule emit_distinct)
    show "distinct (map fst bins)" by (rule inv[THEN conjunct1])
    show "\<And>k cnts. (k, cnts) \<in> set bins \<Longrightarrow> distinct (map fst cnts)"
      using inv[THEN conjunct2, THEN conjunct1] by blast
  qed
  show ?thesis using g s c d by (intro exI[of _ "emit bins"]) simp
qed

lemma key_total:
  assumes "valid_datetime t"
    and "key_of \<in> {hour_key, day_key, week_key, month_key, quarter_key}"
  shows "\<exists>k. key_of t = Inr k"
proof -
  from week_start_ok[OF assms(1)] obtain ws where "sub_days t (weekday t) = Inr ws" by blast
  then have "\<exists>k. week_key t = Inr k" by (simp add: week_key_def)
  then show ?thesis
    using assms(2) by (auto simp: hour_key_def day_key_def month_key_def quarter_key_def Let_def)
qed


text \<open>
  C1. For a dataset whose timestamp column holds datetimes and whose feature column is
  row-aligned with it, and for each of the five granularities with its key function, the
  aggregation returns a result in which, for every bucket key \<open>k\<close>, the counts of the
  records with that key add up to the number of rows whose timestamp maps to \<open>k\<close>;
  every record has a count of at least 1 and no (bucket, value) pair occurs twice.
\<close>

theorem bucket_completeness:
  assumes "map_of fd ''timestamp'' = Some (map Ts ts)"
    and "map_of fd feature = Some fcol" and "length fcol = length ts"
    and "\<forall>t\<in>set ts. valid_datetime t"
    and "(bin_size, key_of) \<in> {(''1H'', hour_key), (''1D'', day_key), (''1W'', week_key),
                                (''1M'', month_key), (''3M'', quarter_key)}"
  shows "\<exists>recs. bin_branches bin_size fd feature = Some (Inr recs)
           \<and> (\<forall>k. sum_list (map count (filter (\<lambda>r. date r = k) recs))
                  = int (length (filter (\<lambda>t. key_of t = Inr k) ts)))
           \<and> (\<forall>r\<in>set recs. 1 \<le> count r)
           \<and> distinct (map (\<lambda>r. (date r, value r)) recs)"
proof -
  have k: "key_of \<in> {hour_key, day_key, week_key, month_key, quarter_key}"
    using assms(5) by auto
  have tot: "\<forall>t\<in>set ts. \<exists>k. key_of t = Inr k"
    using assms(4) key_total[OF _ k] by blast
  have b: "bin_branches bin_size fd feature = Some (group_count key_of fd feature)"
    using assms(5) by (auto simp: bin_branches_def)
  from group_count_complete[OF assms(1,2,3) tot] show ?thesis
    unfolding b by simp
qed


text \<open>
  Weekly buckets of the three example rows: two rows fall in the week of 2024-01-01.
\<close>

theorem bucket_completeness_witness:
  "\<exists>recs. bin_branches ''1W'' ex_bar ''status'' = Some (Inr recs)
     \<and> sum_list (map count (filter (\<lambda>r. date r = ''2024-01-01'') recs)) = 2
     \<and> (\<forall>r\<in>set recs. 1 \<le> count r)
     \<and> distinct (map (\<lambda>r. (date r, value r)) recs)"
proof -
  have t: "map_of ex_bar ''timestamp''
           = Some (map Ts [mk_datetime 2024 1 1 0 0 0, mk_datetime 2024 1 3 23 59 59,
                           mk_datetime 2024 3 15 10 30 0])"
    by (simp add: ex_bar_def)
  have f: "map_of ex_bar ''status'' = Some [Str ''active'', Str ''failed'', Str ''active'']"
    by (simp add: ex_bar_def)
  have l: "length [Str ''active'', Str ''failed'', Str ''active'']
           = length [mk_datetime 2024 1 1 0 0 0, mk_datetime 2024 1 3 23 59 59,
                     mk_datetime 2024 3 15 10 30 0]" by simp
  have v: "\<forall>t\<in>set [mk_datetime 2024 1 1 0 0 0, mk_datetime 2024 1 3 23 59 59,
                     mk_datetime 2024 3 15 10 30 0]. valid_datetime t"
    by code_simp
  have m: "(''1W'', week_key) \<in> {(''1H'', hour_key), (''1D'', day_key), (''1W'', week_key),
                                (''1M'', month_key), (''3M'', quarter_key)}" by simp
  have k: "week_key (mk_datetime 2024 1 1 0 0 0) = Inr ''2024-01-01''"
    "week_key (mk_datetime 2024 1 3 23 59 59) = Inr ''2024-01-01''"
    "week_key (mk_datetime 2024 3 15 10 30 0) = Inr ''2024-03-11''" by code_simp+
  from bucket_completeness[OF t f l v m] obtain recs where
    r: "bin_branches ''1W'' ex_bar ''status'' = Some (Inr recs)
        \<and> (\<forall>k. sum_list (map count (filter (\<lambda>r. date r = k) recs))
                  = int (length (filter (\<lambda>t. week_key t = Inr k)
                      [mk_datetime 2024 1 1 0 0 0, mk_datetime 2024 1 3 23 59 59,
                       mk_datetime 2024 3 15 10 30 0])))
        \<and> (\<forall>r\<in>set recs. 1 \<le> count r)
        \<and> distinct (map (\<lambda>r. (date r, value r)) recs)"
    by (elim exE) (rule that)
  have "sum_list (map count (filter (\<lambda>r. date r = ''2024-01-01'') recs)) = 2"
    using r[THEN conjunct2, THEN conjunct1, THEN spec, of "''2024-01-01''"] k by simp
  then show ?thesis using r by (intro exI[of _ recs]) simp
qed

subsection \<open>The whole method\<close>

lemma load_bar_data:
  assumes "load_bar E w = (ds, w')"
  shows "bar_data (self w') = Some ds"
    and "bar_test_data E \<noteq> [] \<Longrightarrow> ds \<noteq> []"
    and "bar_data (self w) = None \<or> bar_data (self w) = Some (bar_test_data E)
         \<Longrightarrow> ds = bar_test_data E"
  using assms
  by (auto simp: load_bar_def is_cache_valid_def now_def update_cache_def truthy_data_def Let_def
      split: option.splits prod.splits if_splits)

lemma bin_branches_1D:
  "bin_branches ''1D'' fd feature = Some (group_count day_key fd feature)"
  by (simp add: bin_branches_def)

lemma get_bar_data_inv:
  "bar_data (self w) = None \<or> bar_data (self w) = Some (bar_test_data E) \<Longrightarrow>
   fst (get_bar_data E feature start_date end_date bin_size w)
     = (case range_filter (Some (bar_test_data E)) (bar_test_data E) feature start_date end_date of
          Inl e \<Rightarrow> Inl e
        | Inr fd \<Rightarrow>
            (case bin_branches bin_size fd feature of
               Some r \<Rightarrow> r
             | None \<Rightarrow> group_count day_key fd feature))
   \<and> bar_data (self (snd (get_bar_data E feature start_date end_date bin_size w)))
       = Some (bar_test_data E)"
proof (induction E feature start_date end_date bin_size w rule: get_bar_data.induct)
  case (1 E feature start_date end_date bin_size w)
  obtain ds w' where l: "load_bar E w = (ds, w')" by (cases "load_bar E w")
  note ld = load_bar_data[OF l]
  have ds: "ds = bar_test_data E" using ld(3) "1.prems" by simp
  have bd: "bar_data (self w') = Some (bar_test_data E)" using ld(1) ds by simp
  show ?case
  proof (cases "range_filter (Some (bar_test_data E)) (bar_test_data E) feature start_date end_date")
    case (Inl e)
    then show ?thesis
      using l ds bd by (simp add: get_bar_data.simps[of E feature start_date end_date bin_size w])
  next
    case (Inr fd)
    show ?thesis
    proof (cases "bin_branches bin_size fd feature")
      case (Some r)
      then show ?thesis
        using l ds bd Inr
        by (simp add: get_bar_data.simps[of E feature start_date end_date bin_size w])
    next
      case None
      have rf: "range_filter (bar_data (self w')) ds feature start_date end_date = Inr fd"
        using Inr ds bd by simp
      have inv': "bar_data (self w') = None \<or> bar_data (self w') = Some (bar_test_data E)"
        using bd by simp
      note ih = "1.IH"[OF l[symmetric] rf None inv']
      show ?thesis
        using l ds bd Inr None ih
        by (simp add: get_bar_data.simps[of E feature start_date end_date bin_size w]
            bin_branches_1D)
    qed
  qed
qed


lemma get_data_bar_data:
  "bar_data (self (snd (get_data E query w))) = bar_data (self w)"
  by (simp add: get_data_def is_cache_valid_def now_def update_cache_def Let_def
      split: option.splits prod.splits)

lemma get_cache_status_self:
  "self (snd (get_cache_status E w)) = self w"
  by (simp add: get_cache_status_def is_cache_valid_def age_of_def now_def
      split: option.splits prod.splits)

lemma reachable_bar_data:
  "reachable E w \<Longrightarrow>
   bar_data (self w) = None \<or> bar_data (self w) = Some (bar_test_data E)"
proof (induction rule: reachable.induct)
  case (r_init k)
  then show ?case by (simp add: init_handler_def)
next
  case (r_get_data w query)
  then show ?case by (simp add: get_data_bar_data)
next
  case (r_get_bar_data w feature start_date end_date bin_size)
  then show ?case using get_bar_data_inv[of w E feature start_date end_date bin_size] by simp
next
  case (r_clear_cache w)
  then show ?case by (simp add: clear_cache_def)
next
  case (r_get_cache_status w)
  then show ?case by (simp add: get_cache_status_self)
qed


text \<open>
  C6. In every state the handler can reach, a request whose bin size is none of
  \<open>1H\<close>, \<open>1D\<close>, \<open>1W\<close>, \<open>1M\<close>, \<open>3M\<close> returns exactly what the same request returns
  with bin size \<open>1D\<close>, be it a result or an error; the fallback adds no error of its own.
\<close>

theorem unknown_bin_is_daily:
  assumes "reachable E w"
    and "bin_size \<notin> {''1H'', ''1D'', ''1W'', ''1M'', ''3M''}"
  shows "fst (get_bar_data E feature start_date end_date bin_size w)
         = fst (get_bar_data E feature start_date end_date ''1D'' w)"
proof -
  note inv = reachable_bar_data[OF assms(1)]
  have n: "\<And>fd. bin_branches bin_size fd feature = None"
    using assms(2) by (simp add: bin_branches_def)
  show ?thesis
    using get_bar_data_inv[OF inv, of feature start_date end_date bin_size]
      get_bar_data_inv[OF inv, of feature start_date end_date "''1D''"]
    by (simp add: n bin_branches_1D split: sum.splits)
qed


text \<open>Bin size \<open>2D\<close> on the example data gives the three daily records.\<close>

theorem unknown_bin_is_daily_witness:
  "reachable ex_env ex_world
   \<and> fst (get_bar_data ex_env ''status'' None None ''2D'' ex_world)
     = fst (get_bar_data ex_env ''status'' None None ''1D'' ex_world)
   \<and> fst (get_bar_data ex_env ''status'' None None ''2D'' ex_world)
     = Inr [\<lparr>date = ''2024-01-01'', value = Str ''active'', count = 1\<rparr>,
            \<lparr>date = ''2024-01-03'', value = Str ''failed'', count = 1\<rparr>,
            \<lparr>date = ''2024-03-15'', value = Str ''active'', count = 1\<rparr>]"
proof -
  have r: "reachable ex_env ex_world" unfolding ex_world_def by (rule r_init)
  have b: "''2D'' \<notin> {''1H'', ''1D'', ''1W'', ''1M'', ''3M''}" by simp
  have v: "fst (get_bar_data ex_env ''status'' None None ''1D'' ex_world)
     = Inr [\<lparr>date = ''2024-01-01'', value = Str ''active'', count = 1\<rparr>,
            \<lparr>date = ''2024-01-03'', value = Str ''failed'', count = 1\<rparr>,
            \<lparr>date = ''2024-03-15'', value = Str ''active'', count = 1\<rparr>]"
    by code_simp
  from unknown_bin_is_daily[OF r b, of "''status''" None None] r v show ?thesis by simp
qed

subsection \<open>Malformed dates\<close>

lemma range_filter_skip:
  "\<not> truthy_str start_date \<or> \<not> truthy_str end_date \<Longrightarrow>
   range_filter b fd feature start_date end_date = Inr fd"
  by (auto simp: range_filter_def)










subsection \<open>A feature that is not a column\<close>

lemma bin_branches_cases:
  "(\<forall>fd feature. (case bin_branches bin_size fd feature of Some r \<Rightarrow> r
        | None \<Rightarrow> group_count day_key fd feature) = group_count hour_key fd feature)
   \<or> (\<forall>fd feature. (case bin_branches bin_size fd feature of Some r \<Rightarrow> r
        | None \<Rightarrow> group_count day_key fd feature) = group_count day_key fd feature)
   \<or> (\<forall>fd feature. (case bin_branches bin_size fd feature of Some r \<Rightarrow> r
        | None \<Rightarrow> group_count day_key fd feature) = group_count week_key fd feature)
   \<or> (\<forall>fd feature. (case bin_branches bin_size fd feature of Some r \<Rightarrow> r
        | None \<Rightarrow> group_count day_key fd feature) = group_count month_key fd feature)
   \<or> (\<forall>fd feature. (case bin_branches bin_size fd feature of Some r \<Rightarrow> r
        | None \<Rightarrow> group_count day_key fd feature) = group_count quarter_key fd feature)"
  by (simp add: bin_branches_def)

lemma group_count_no_rows:
  "map_of fd ''timestamp'' = Some [] \<Longrightarrow> group_count key_of fd feature = Inr []"
  by (simp add: group_count_def)

lemma group_count_missing:
  assumes "map_of fd ''timestamp'' = Some (map Ts ts)" and "map_of fd feature = None"
    and "\<forall>t\<in>set ts. \<exists>k. key_of t = Inr k"
  shows "group_count key_of fd feature = (if ts = [] then Inr [] else Inl (KeyError feature))"
proof (cases ts)
  case Nil
  then show ?thesis using assms(1) by (simp add: group_count_def)
next
  case (Cons t ts')
  then obtain k where "key_of t = Inr k" using assms(3) by auto
  then show ?thesis
    using assms(1,2) Cons by (simp add: group_count_def bin_rows_Ts del: bin_rows.simps)
qed

lemma range_filter_missing:
  assumes "map_of bar ''timestamp'' = Some (map Ts ts)"
    and "fromisoformat sd = Some s" and "fromisoformat ed = Some e0"
    and "map_of bar feature = None"
  shows "range_filter (Some bar) fd0 feature (Some sd) (Some ed)
         = (if filter (\<lambda>t. dt_le s t
                 \<and> dt_le t (e0\<lparr>hour := 23, minute := 59, second := 59\<rparr>)) ts = []
            then Inr (AList.update feature [] (AList.update ''timestamp'' [] fd0))
            else Inl (KeyError feature))"
proof -
  let ?e = "e0\<lparr>hour := 23, minute := 59, second := 59\<rparr>"
  let ?P = "\<lambda>t. dt_le s t \<and> dt_le t ?e"
  have ne: "sd \<noteq> []" "ed \<noteq> []" "bar \<noteq> []"
    using assms fromisoformat_Nil by auto
  from filtered_indices_Ts[of s ?e 0 ts] obtain "is" where
    f: "filtered_indices s ?e 0 (map Ts ts) = Inr is"
    and p: "\<And>ds name col. map_of ds name = Some col \<Longrightarrow> 0 + length ts \<le> length col \<Longrightarrow>
          pick ds name is
            = Inr (map snd (filter (\<lambda>(t, v). dt_le s t \<and> dt_le t ?e) (zip ts (drop 0 col))))"
    by blast
  have pt: "pick bar ''timestamp'' is = Inr (map Ts (filter ?P ts))"
    using p[OF assms(1)] zip_Ts_filter[of ?P ts] by simp
  have "length (map Ts (filter ?P ts)) = length is" using pt by (rule pick_length)
  then have e: "(is = []) = (filter ?P ts = [])" by auto
  have pf: "pick bar feature is = (if is = [] then Inr [] else Inl (KeyError feature))"
    using assms(4) by (rule pick_missing)
  show ?thesis
    using ne assms(1,2,3) f pt pf e
    by (simp add: range_filter_def truthy_str_def truthy_data_def Let_def)
qed



lemma range_filter_no_rows:
  assumes "map_of bar ''timestamp'' = Some []"
    and "fromisoformat sd = Some s" and "fromisoformat ed = Some e0"
  shows "range_filter (Some bar) fd0 feature (Some sd) (Some ed)
         = Inr (AList.update feature [] (AList.update ''timestamp'' [] fd0))"
proof -
  have ne: "sd \<noteq> []" "ed \<noteq> []" "bar \<noteq> []"
    using assms fromisoformat_Nil by auto
  show ?thesis
    using ne assms
    by (simp add: range_filter_def truthy_str_def truthy_data_def Let_def)
qed

lemma map_of_update_timestamp_Nil:
  "map_of (AList.update feature [] (AList.update ''timestamp'' [] fd0)) ''timestamp'' = Some []"
  by (simp add: update_conv')

lemma outcome_key:
  assumes "bar_data (self w) = None \<or> bar_data (self w) = Some (bar_test_data E)"
    and "map_of (bar_test_data E) ''timestamp'' = Some (map Ts ts)"
    and "\<forall>t\<in>set ts. \<exists>k. key_of t = Inr k"
    and "\<forall>fd feature. (case bin_branches bin_size fd feature of Some r \<Rightarrow> r
        | None \<Rightarrow> group_count day_key fd feature) = group_count key_of fd feature"
  shows "(map_of (bar_test_data E) feature = None
            \<and> (\<not> truthy_str start_date \<or> \<not> truthy_str end_date) \<longrightarrow>
           fst (get_bar_data E feature start_date end_date bin_size w)
             = (if ts = [] then Inr [] else Inl (KeyError feature)))
       \<and> (map_of (bar_test_data E) feature = None
            \<and> fromisoformat sd = Some s \<and> fromisoformat ed = Some e0 \<longrightarrow>
           fst (get_bar_data E feature (Some sd) (Some ed) bin_size w)
             = (if filter (\<lambda>t. dt_le s t
                     \<and> dt_le t (e0\<lparr>hour := 23, minute := 59, second := 59\<rparr>)) ts = []
                then Inr [] else Inl (KeyError feature)))
       \<and> (ts = [] \<and> (\<not> truthy_str start_date \<or> \<not> truthy_str end_date) \<longrightarrow>
           fst (get_bar_data E feature start_date end_date bin_size w) = Inr [])
       \<and> (ts = [] \<and> fromisoformat sd = Some s \<and> fromisoformat ed = Some e0 \<longrightarrow>
           fst (get_bar_data E feature (Some sd) (Some ed) bin_size w) = Inr [])"
proof -
  let ?D = "bar_test_data E"
  have r: "\<And>sdo edo. fst (get_bar_data E feature sdo edo bin_size w)
     = (case range_filter (Some ?D) ?D feature sdo edo of
          Inl e \<Rightarrow> Inl e
        | Inr fd \<Rightarrow> group_count key_of fd feature)"
    using get_bar_data_inv[OF assms(1)] assms(4) by (simp split: sum.splits)
  have c1: "map_of ?D feature = None
            \<and> (\<not> truthy_str start_date \<or> \<not> truthy_str end_date) \<longrightarrow>
           fst (get_bar_data E feature start_date end_date bin_size w)
             = (if ts = [] then Inr [] else Inl (KeyError feature))"
    using group_count_missing[OF assms(2) _ assms(3)]
    by (simp add: r range_filter_skip)
  have c2: "map_of ?D feature = None
            \<and> fromisoformat sd = Some s \<and> fromisoformat ed = Some e0 \<longrightarrow>
           fst (get_bar_data E feature (Some sd) (Some ed) bin_size w)
             = (if filter (\<lambda>t. dt_le s t
                     \<and> dt_le t (e0\<lparr>hour := 23, minute := 59, second := 59\<rparr>)) ts = []
                then Inr [] else Inl (KeyError feature))"
  proof
    assume a: "map_of ?D feature = None
            \<and> fromisoformat sd = Some s \<and> fromisoformat ed = Some e0"
    have rf: "range_filter (Some ?D) ?D feature (Some sd) (Some ed)
         = (if filter (\<lambda>t. dt_le s t
                 \<and> dt_le t (e0\<lparr>hour := 23, minute := 59, second := 59\<rparr>)) ts = []
            then Inr (AList.update feature [] (AList.update ''timestamp'' [] ?D))
            else Inl (KeyError feature))"
      using a by (intro range_filter_missing[OF assms(2)]) simp_all
    show "fst (get_bar_data E feature (Some sd) (Some ed) bin_size w)
             = (if filter (\<lambda>t. dt_le s t
                     \<and> dt_le t (e0\<lparr>hour := 23, minute := 59, second := 59\<rparr>)) ts = []
                then Inr [] else Inl (KeyError feature))"
      unfolding r rf
      by (simp add: group_count_no_rows[OF map_of_update_timestamp_Nil])
  qed
  have c3: "ts = [] \<and> (\<not> truthy_str start_date \<or> \<not> truthy_str end_date) \<longrightarrow>
           fst (get_bar_data E feature start_date end_date bin_size w) = Inr []"
    using assms(2) by (simp add: r range_filter_skip group_count_no_rows)
  have c4: "ts = [] \<and> fromisoformat sd = Some s \<and> fromisoformat ed = Some e0 \<longrightarrow>
           fst (get_bar_data E feature (Some sd) (Some ed) bin_size w) = Inr []"
  proof
    assume a: "ts = [] \<and> fromisoformat sd = Some s \<and> fromisoformat ed = Some e0"
    have t0: "map_of ?D ''timestamp'' = Some []" using assms(2) a by simp
    have rf: "range_filter (Some ?D) ?D feature (Some sd) (Some ed)
         = Inr (AList.update feature [] (AList.update ''timestamp'' [] ?D))"
      using a by (intro range_filter_no_rows[OF t0]) simp_all
    show "fst (get_bar_data E feature (Some sd) (Some ed) bin_size w) = Inr []"
      unfolding r rf
      by (simp add: group_count_no_rows[OF map_of_update_timestamp_Nil])
  qed
  show ?thesis using c1 c2 c3 c4 by (intro conjI)
qed


text \<open>
  C4, as the code has it. In every state the handler can reach, with a data source whose
  timestamp column holds datetimes, and for every bin size: a request for a feature that
  is not a column fails with KeyError, carrying the feature name, exactly when at least
  one row is looked at, which is every row when no window applies (a date is absent or
  empty) and the rows the window retains otherwise; when no row is looked at the request
  returns the empty list. With a data source of zero rows the result is the empty list,
  with or without a well-formed window, whether the feature is a column or not.
\<close>

theorem unknown_feature_outcome:
  assumes "reachable E w"
    and "map_of (bar_test_data E) ''timestamp'' = Some (map Ts ts)"
    and "\<forall>t\<in>set ts. valid_datetime t"
  shows "(map_of (bar_test_data E) feature = None
            \<and> (\<not> truthy_str start_date \<or> \<not> truthy_str end_date) \<longrightarrow>
           fst (get_bar_data E feature start_date end_date bin_size w)
             = (if ts = [] then Inr [] else Inl (KeyError feature)))
       \<and> (map_of (bar_test_data E) feature = None
            \<and> fromisoformat sd = Some s \<and> fromisoformat ed = Some e0 \<longrightarrow>
           fst (get_bar_data E feature (Some sd) (Some ed) bin_size w)
             = (if filter (\<lambda>t. dt_le s t
                     \<and> dt_le t (e0\<lparr>hour := 23, minute := 59, second := 59\<rparr>)) ts = []
                then Inr [] else Inl (KeyError feature)))
       \<and> (ts = [] \<and> (\<not> truthy_str start_date \<or> \<not> truthy_str end_date) \<longrightarrow>
           fst (get_bar_data E feature start_date end_date bin_size w) = Inr [])
       \<and> (ts = [] \<and> fromisoformat sd = Some s \<and> fromisoformat ed = Some e0 \<longrightarrow>
           fst (get_bar_data E feature (Some sd) (Some ed) bin_size w) = Inr [])"
proof -
  note inv = reachable_bar_data[OF assms(1)]
  have tot: "\<forall>t\<in>set ts. \<exists>k. key_of t = Inr k"
    if "key_of \<in> {hour_key, day_key, week_key, month_key, quarter_key}" for key_of
    using assms(3) key_total[OF _ that] by blast
  show ?thesis
    using bin_branches_cases[of bin_size]
  proof (elim disjE)
    assume c: "\<forall>fd feature. (case bin_branches bin_size fd feature of Some r \<Rightarrow> r
        | None \<Rightarrow> group_count day_key fd feature) = group_count hour_key fd feature"
    show ?thesis by (rule outcome_key[OF inv assms(2) tot c]) simp
  next
    assume c: "\<forall>fd feature. (case bin_branches bin_size fd feature of Some r \<Rightarrow> r
        | None \<Rightarrow> group_count day_key fd feature) = group_count day_key fd feature"
    show ?thesis by (rule outcome_key[OF inv assms(2) tot c]) simp
  next
    assume c: "\<forall>fd feature. (case bin_branches bin_size fd feature of Some r \<Rightarrow> r
        | None \<Rightarrow> group_count day_key fd feature) = group_count week_key fd feature"
    show ?thesis by (rule outcome_key[OF inv assms(2) tot c]) simp
  next
    assume c: "\<forall>fd feature. (case bin_branches bin_size fd feature of Some r \<Rightarrow> r
        | None \<Rightarrow> group_count day_key fd feature) = group_count month_key fd feature"
    show ?thesis by (rule outcome_key[OF inv assms(2) tot c]) simp
  next
    assume c: "\<forall>fd feature. (case bin_branches bin_size fd feature of Some r \<Rightarrow> r
        | None \<Rightarrow> group_count day_key fd feature) = group_count quarter_key fd feature"
    show ?thesis by (rule outcome_key[OF inv assms(2) tot c]) simp
  qed
qed

text \<open>
  The example data has no column \<open>nope\<close>: the request fails without a window and with
  a window that keeps a row, and returns the empty list with a window that keeps none. A
  dataset of two empty columns gives the empty list.
\<close>

theorem unknown_feature_outcome_witness:
  "reachable ex_env ex_world
   \<and> map_of (bar_test_data ex_env) ''nope'' = None
   \<and> fst (get_bar_data ex_env ''nope'' None None ''1W'' ex_world) = Inl (KeyError ''nope'')
   \<and> fst (get_bar_data ex_env ''nope'' (Some ''2024-01-01'') (Some ''2024-01-02'') ''1W'' ex_world)
       = Inl (KeyError ''nope'')
   \<and> fst (get_bar_data ex_env ''nope'' (Some ''1990-01-01'') (Some ''1990-01-03'') ''1W'' ex_world)
       = Inr []
   \<and> fst (get_bar_data ex_norows ''status'' None None ''1W'' ex_world) = Inr []
   \<and> fst (get_bar_data ex_norows ''status'' (Some ''2024-01-01'') (Some ''2024-01-02'') ''1W''
            ex_world) = Inr []"
proof -
  let ?ts = "[mk_datetime 2024 1 1 0 0 0, mk_datetime 2024 1 3 23 59 59,
              mk_datetime 2024 3 15 10 30 0]"
  have r: "reachable ex_env ex_world" "reachable ex_norows ex_world"
    unfolding ex_world_def by (rule r_init)+
  have t: "map_of (bar_test_data ex_env) ''timestamp'' = Some (map Ts ?ts)"
    by (simp add: ex_env_def ex_bar_def)
  have v: "\<forall>t\<in>set ?ts. valid_datetime t"
    by (simp add: valid_datetime_def mk_datetime_def days_in_month_def DAYS_IN_MONTH_def)
  have m: "map_of (bar_test_data ex_env) ''nope'' = None" by (simp add: ex_env_def ex_bar_def)
  have n: "\<not> truthy_str None" by (simp add: truthy_str_def)
  have p: "fromisoformat ''2024-01-01'' = Some (mk_datetime 2024 1 1 0 0 0)"
    "fromisoformat ''2024-01-02'' = Some (mk_datetime 2024 1 2 0 0 0)"
    "fromisoformat ''1990-01-01'' = Some (mk_datetime 1990 1 1 0 0 0)"
    "fromisoformat ''1990-01-03'' = Some (mk_datetime 1990 1 3 0 0 0)" by code_simp+
  have t0: "map_of (bar_test_data ex_norows) ''timestamp'' = Some (map Ts [])"
    by (simp add: ex_norows_def)
  have v0: "\<forall>t\<in>set []. valid_datetime t" by simp
  note a = unknown_feature_outcome[OF r(1) t v, of "''nope''" None None "''1W''"
      "''2024-01-01''" "mk_datetime 2024 1 1 0 0 0" "''2024-01-02''" "mk_datetime 2024 1 2 0 0 0"]
  note b = unknown_feature_outcome[OF r(1) t v, of "''nope''" None None "''1W''"
      "''1990-01-01''" "mk_datetime 1990 1 1 0 0 0" "''1990-01-03''" "mk_datetime 1990 1 3 0 0 0"]
  note c = unknown_feature_outcome[OF r(2) t0 v0, of "''status''" None None "''1W''"
      "''2024-01-01''" "mk_datetime 2024 1 1 0 0 0" "''2024-01-02''" "mk_datetime 2024 1 2 0 0 0"]
  have a1: "fst (get_bar_data ex_env ''nope'' None None ''1W'' ex_world) = Inl (KeyError ''nope'')"
    using a m n by simp
  have a2: "fst (get_bar_data ex_env ''nope'' (Some ''2024-01-01'') (Some ''2024-01-02'') ''1W''
                  ex_world) = Inl (KeyError ''nope'')"
    using a m p by (simp add: dt_le_def dt_fields_def mk_datetime_def)
  have b2: "fst (get_bar_data ex_env ''nope'' (Some ''1990-01-01'') (Some ''1990-01-03'') ''1W''
                  ex_world) = Inr []"
    using b m p by (simp add: dt_le_def dt_fields_def mk_datetime_def)
  have c1: "fst (get_bar_data ex_norows ''status'' None None ''1W'' ex_world) = Inr []"
    using c n by simp
  have c2: "fst (get_bar_data ex_norows ''status'' (Some ''2024-01-01'') (Some ''2024-01-02'')
                  ''1W'' ex_world) = Inr []"
    using c p by simp
  show ?thesis using r(1) m a1 a2 b2 c1 c2 by simp
qed

text \<open>
  A feature that is not a column, asked for in a window before every row: the result is
  the empty list, not an error.
\<close>

theorem unknown_feature_counterexample:
  "map_of (bar_test_data ex_env) ''nope'' = None
   \<and> fst (get_bar_data ex_env ''nope'' (Some ''1990-01-01'') (Some ''1990-01-03'') ''1D'' ex_world)
       = Inr []"
  by code_simp

subsection \<open>Freshness\<close>

lemma load_bar_cache_duration:
  "cache_duration (self (snd (load_bar E w))) = cache_duration (self w)"
  by (simp add: load_bar_def is_cache_valid_def now_def update_cache_def Let_def
      split: option.splits prod.splits)

lemma get_bar_data_cache_duration:
  "cache_duration (self (snd (get_bar_data E feature start_date end_date bin_size w)))
   = cache_duration (self w)"
proof (induction E feature start_date end_date bin_size w rule: get_bar_data.induct)
  case (1 E feature start_date end_date bin_size w)
  obtain ds w' where l: "load_bar E w = (ds, w')" by (cases "load_bar E w")
  have c: "cache_duration (self w') = cache_duration (self w)"
    using load_bar_cache_duration[of E w] l by simp
  show ?case
  proof (cases "range_filter (bar_data (self w')) ds feature start_date end_date")
    case (Inl e)
    then show ?thesis
      using l c by (simp add: get_bar_data.simps[of E feature start_date end_date bin_size w])
  next
    case (Inr fd)
    show ?thesis
    proof (cases "bin_branches bin_size fd feature")
      case (Some r)
      then show ?thesis
        using l c Inr
        by (simp add: get_bar_data.simps[of E feature start_date end_date bin_size w])
    next
      case None
      note ih = "1.IH"[OF l[symmetric] Inr None]
      show ?thesis
        using l c Inr None ih
        by (simp add: get_bar_data.simps[of E feature start_date end_date bin_size w])
    qed
  qed
qed

lemma reachable_cache_duration:
  "reachable E w \<Longrightarrow> cache_duration (self w) = 600"
proof (induction rule: reachable.induct)
  case (r_init k)
  then show ?case by (simp add: init_handler_def)
next
  case (r_get_data w query)
  then show ?case
    by (simp add: get_data_def is_cache_valid_def now_def update_cache_def Let_def
        split: option.splits prod.splits)
next
  case (r_get_bar_data w feature start_date end_date bin_size)
  then show ?case by (simp add: get_bar_data_cache_duration)
next
  case (r_clear_cache w)
  then show ?case by (simp add: clear_cache_def)
next
  case (r_get_cache_status w)
  then show ?case by (simp add: get_cache_status_self)
qed


text \<open>
  C3. In every state the handler can reach the TTL is 600 seconds. For a slot loaded at
  \<open>T\<close> and a check that reads the clock at \<open>t\<close>, the elapsed time \<open>t - T\<close> is the number
  \<open>d\<close> of microseconds with \<open>T + timedelta(microseconds=d) = t\<close>; there is such a \<open>d\<close>,
  and the slot is fresh exactly when \<open>d\<close> is below 600 seconds. A slot with no load time
  is never fresh.
\<close>

theorem freshness_boundary:
  assumes "reachable E w" and "valid_datetime T" and "valid_datetime (clock E (ticks w))"
  shows "add_micros T (micros_between T (clock E (ticks w))) = Inr (clock E (ticks w))
         \<and> (\<forall>d. add_micros T d = Inr (clock E (ticks w))
                \<longrightarrow> fst (is_cache_valid E (Some T) w) = (d < 600 * 1000000))
         \<and> \<not> fst (is_cache_valid E None w)"
proof (intro conjI allI impI)
  show "add_micros T (micros_between T (clock E (ticks w))) = Inr (clock E (ticks w))"
    using assms(2,3) by (rule add_micros_complete)
next
  fix d
  assume "add_micros T d = Inr (clock E (ticks w))"
  from add_micros_ok(2)[OF this] reachable_cache_duration[OF assms(1)]
  show "fst (is_cache_valid E (Some T) w) = (d < 600 * 1000000)"
    by (simp add: is_cache_valid_def now_def)
next
  show "\<not> fst (is_cache_valid E None w)" by (simp add: is_cache_valid_def)
qed

text \<open>
  Loaded at 23:55:00 on 31 March, the slot is fresh at 00:04:00 on 1 April, nine minutes
  later, and no longer at 00:05:00, ten minutes later to the microsecond.
\<close>

theorem freshness_boundary_witness:
  "reachable ex_env (ex_world\<lparr>ticks := 4\<rparr>)
   \<and> add_micros (mk_datetime 2024 3 31 23 55 0) 540000000 = Inr (clock ex_env 4)
   \<and> fst (is_cache_valid ex_env (Some (mk_datetime 2024 3 31 23 55 0)) (ex_world\<lparr>ticks := 4\<rparr>))
   \<and> add_micros (mk_datetime 2024 3 31 23 55 0) 600000000 = Inr (clock ex_env 5)
   \<and> \<not> fst (is_cache_valid ex_env (Some (mk_datetime 2024 3 31 23 55 0)) (ex_world\<lparr>ticks := 5\<rparr>))
   \<and> \<not> fst (is_cache_valid ex_env None ex_world)"
proof -
  have r: "reachable ex_env (ex_world\<lparr>ticks := k\<rparr>)" for k
    using r_init[of ex_env k] by (simp add: ex_world_def)
  have v: "valid_datetime (mk_datetime 2024 3 31 23 55 0)" by code_simp
  have c: "valid_datetime (clock ex_env (ticks (ex_world\<lparr>ticks := 4\<rparr>)))"
    "valid_datetime (clock ex_env (ticks (ex_world\<lparr>ticks := 5\<rparr>)))"
    "valid_datetime (clock ex_env (ticks (ex_world\<lparr>ticks := 0\<rparr>)))" by code_simp+
  have a: "add_micros (mk_datetime 2024 3 31 23 55 0) 540000000 = Inr (clock ex_env 4)"
    "add_micros (mk_datetime 2024 3 31 23 55 0) 600000000 = Inr (clock ex_env 5)"
    by code_simp+
  from freshness_boundary[OF r[of 4] v c(1)] freshness_boundary[OF r[of 5] v c(2)]
    freshness_boundary[OF r[of 0] v c(3)] r[of 4] a
  show ?thesis by (simp add: ex_world_def)
qed

subsection \<open>Cache status\<close>

text \<open>
  C9. \<open>get_cache_status\<close> is a pure read: the handler (both snapshots and both load
  times) is the same after the call as before, and the data source is not loaded. What
  it returns is, for each slot, the stored load time as text, the freshness of the slot
  at the clock reading its check takes (for the TTL of 600 seconds), and the time elapsed
  since the load at a later reading; a slot without a load time is reported not fresh,
  with no load time and no age, and costs no reading.
\<close>

theorem get_cache_status_pure:
  "self (snd (get_cache_status E w)) = self w
   \<and> loads (snd (get_cache_status E w)) = loads w
   \<and> last_load (line_cache (fst (get_cache_status E w)))
       = map_option strftime_Ymd_HMS (last_load_time (self w))
   \<and> last_load (bar_cache (fst (get_cache_status E w)))
       = map_option strftime_Ymd_HMS (bar_last_load_time (self w))
   \<and> (cache_duration (self w) = 600 \<longrightarrow>
        valid (line_cache (fst (get_cache_status E w)))
          = (case last_load_time (self w) of
               None \<Rightarrow> False
             | Some T \<Rightarrow> micros_between T (clock E (ticks w)) < 600 * 1000000)
        \<and> valid (bar_cache (fst (get_cache_status E w)))
          = (case bar_last_load_time (self w) of
               None \<Rightarrow> False
             | Some T \<Rightarrow>
                 micros_between T (clock E (ticks w + clock_reads (last_load_time (self w))))
                   < 600 * 1000000))
   \<and> age_micros (line_cache (fst (get_cache_status E w)))
       = map_option
           (\<lambda>T. micros_between T
                  (clock E (ticks w + clock_reads (last_load_time (self w))
                                    + clock_reads (bar_last_load_time (self w)))))
           (last_load_time (self w))
   \<and> age_micros (bar_cache (fst (get_cache_status E w)))
       = map_option
           (\<lambda>T. micros_between T
                  (clock E (ticks w + 2 * clock_reads (last_load_time (self w))
                                    + clock_reads (bar_last_load_time (self w)))))
           (bar_last_load_time (self w))
   \<and> cache_duration_seconds (fst (get_cache_status E w)) = cache_duration (self w)"
  by (cases "last_load_time (self w)"; cases "bar_last_load_time (self w)")
     (simp_all add: get_cache_status_def is_cache_valid_def age_of_def now_def clock_reads_def)

text \<open>
  With the line slot loaded at 00:12 and the bar slot at 00:04, a status call whose
  readings are 00:16, 00:20, 00:24 and 00:28 reports the line slot fresh and 12 minutes
  old, the bar slot stale and 24 minutes old, and reloads nothing.
\<close>

theorem get_cache_status_pure_witness:
  "cache_duration (self ex_loaded) = 600
   \<and> self (snd (get_cache_status ex_slow ex_loaded)) = self ex_loaded
   \<and> loads (snd (get_cache_status ex_slow ex_loaded)) = 2
   \<and> last_load (line_cache (fst (get_cache_status ex_slow ex_loaded)))
       = Some ''2024-04-01 00:12:00''
   \<and> last_load (bar_cache (fst (get_cache_status ex_slow ex_loaded)))
       = Some ''2024-04-01 00:04:00''
   \<and> valid (line_cache (fst (get_cache_status ex_slow ex_loaded)))
   \<and> \<not> valid (bar_cache (fst (get_cache_status ex_slow ex_loaded)))
   \<and> age_micros (line_cache (fst (get_cache_status ex_slow ex_loaded))) = Some 720000000
   \<and> age_micros (bar_cache (fst (get_cache_status ex_slow ex_loaded))) = Some 1440000000"
proof -
  have s: "self ex_loaded
           = \<lparr>data = Some [], bar_data = Some ex_bar,
              last_load_time = Some (mk_datetime 2024 4 1 0 12 0),
              bar_last_load_time = Some (mk_datetime 2024 4 1 0 4 0), cache_duration = 600\<rparr>"
    "ticks ex_loaded = 4" "loads ex_loaded = 2"
    by code_simp+
  have f: "strftime_Ymd_HMS (mk_datetime 2024 4 1 0 12 0) = ''2024-04-01 00:12:00''"
    "strftime_Ymd_HMS (mk_datetime 2024 4 1 0 4 0) = ''2024-04-01 00:04:00''"
    by code_simp+
  have m: "micros_between (mk_datetime 2024 4 1 0 12 0) (clock ex_slow 4) = 240000000"
    "micros_between (mk_datetime 2024 4 1 0 4 0) (clock ex_slow 5) = 960000000"
    "micros_between (mk_datetime 2024 4 1 0 12 0) (clock ex_slow 6) = 720000000"
    "micros_between (mk_datetime 2024 4 1 0 4 0) (clock ex_slow 7) = 1440000000"
    by code_simp+
  from get_cache_status_pure[of ex_slow ex_loaded]
  show ?thesis
    unfolding s by (simp add: clock_reads_def f m)
qed

subsection \<open>Depth of the fallback recursion\<close>

lemma bin_branches_None_iff:
  "(bin_branches bin_size fd feature = None)
   = (bin_size \<notin> {''1H'', ''1D'', ''1W'', ''1M'', ''3M''})"
  by (auto simp: bin_branches_def)

lemma fuel_known:
  "bin_size \<in> {''1H'', ''1D'', ''1W'', ''1M'', ''3M''} \<Longrightarrow>
   get_bar_data_fuel (Suc k) E feature start_date end_date bin_size w
     = Some (get_bar_data E feature start_date end_date bin_size w)"
  by (simp add: get_bar_data.simps[of E feature start_date end_date bin_size w]
      bin_branches_None_iff split: prod.splits sum.splits option.splits)

lemma fuel_two:
  "get_bar_data_fuel (Suc (Suc k)) E feature start_date end_date bin_size w
     = Some (get_bar_data E feature start_date end_date bin_size w)"
  using fuel_known[of "''1D''" k E feature start_date end_date]
  by (auto simp: get_bar_data.simps[of E feature start_date end_date bin_size w]
      simp del: get_bar_data_fuel.simps(2)
      simp add: get_bar_data_fuel.simps(2)[of "Suc k"]
      split: prod.splits sum.splits option.splits)

lemma fuel_one_None:
  "(get_bar_data_fuel (Suc 0) E feature start_date end_date bin_size w = None)
   = (bin_size \<notin> {''1H'', ''1D'', ''1W'', ''1M'', ''3M''}
      \<and> \<not> isl (range_filter (bar_data (self (snd (load_bar E w)))) (fst (load_bar E w))
                 feature start_date end_date))"
proof (cases "load_bar E w")
  case (Pair fd0 w')
  show ?thesis
  proof (cases "range_filter (bar_data (self w')) fd0 feature start_date end_date")
    case (Inl e)
    then show ?thesis using Pair by simp
  next
    case (Inr fd)
    then show ?thesis
      using Pair bin_branches_None_iff[of bin_size fd feature]
      by (cases "bin_branches bin_size fd feature") simp_all
  qed
qed

text \<open>
  C10. \<open>get_bar_data\<close> returns for every feature, date range and bin size: two
  activations always suffice, the tag \<open>1D\<close> is served by one activation, and a single
  activation is not enough exactly when the tag is unrecognized and the date window
  raised no error, which is when the method calls itself once with \<open>1D\<close>.
\<close>

theorem get_bar_data_depth:
  "get_bar_data_fuel 2 E feature start_date end_date bin_size w
     = Some (get_bar_data E feature start_date end_date bin_size w)
   \<and> get_bar_data_fuel 1 E feature start_date end_date ''1D'' w
     = Some (get_bar_data E feature start_date end_date ''1D'' w)
   \<and> (get_bar_data_fuel 1 E feature start_date end_date bin_size w = None)
     = (bin_size \<notin> {''1H'', ''1D'', ''1W'', ''1M'', ''3M''}
        \<and> \<not> isl (range_filter (bar_data (self (snd (load_bar E w)))) (fst (load_bar E w))
                 feature start_date end_date))"
  using fuel_two[of 0 E feature start_date end_date bin_size w]
        fuel_known[of "''1D''" 0 E feature start_date end_date w]
        fuel_one_None[of E feature start_date end_date bin_size w]
  by (simp only: numeral_2_eq_2 One_nat_def insert_iff simp_thms)

theorem get_bar_data_depth_witness:
  "get_bar_data_fuel 2 ex_env ''status'' None None ''2D'' ex_world \<noteq> None
   \<and> get_bar_data_fuel 1 ex_env ''status'' None None ''1D'' ex_world \<noteq> None"
  using get_bar_data_depth [of ex_env "''status''" None None "''2D''" ex_world]
  by simp

end
